theory Spec2Isabelle
  imports Main "HOL-Library.AList" "HOL-Library.Word"
begin

section \<open>The external interface of Controllers.cpp\<close>

text \<open>
  Controllers.cpp touches the kernel's rule tables only through calls into other
  translation units: the three \<open>execIptables\<close> entry points, the hook-installation
  operations of the feature modules, \<open>BandwidthController::enableBandwidthControl\<close>,
  \<open>RouteController::Init\<close>, the logging macros and the \<open>Stopwatch\<close>. Each of them is
  a constructor of \<open>call\<close>; an environment says what a call returns and how it changes
  the outside world, and every function of the file threads the world through its calls
  and records them in order.
\<close>

datatype IptablesTarget = V4 | V6 | V4V6

text \<open>
  The status a call returns is a C++ \<open>int\<close>: 32 bits, read as signed, and its negation
  wraps as the machine's does (the language leaves \<open>-INT_MIN\<close> undefined).
\<close>

type_synonym c_int = "32 word"

text \<open>
  \<open>ALOGI\<close> carries its format string and the stopwatch reading it prints, \<open>ALOGE\<close> its
  format string and the \<open>int\<close> handed to \<open>strerror\<close>. \<open>RouteControllerInit\<close> carries the
  network identifier.
\<close>

datatype 't call =
    ExecIptables IptablesTarget "string list"
  | ExecIptablesSilently IptablesTarget "string list"
  | ExecIptablesRestore IptablesTarget string
  | SetupOemIptablesHook
  | FirewallSetupIptablesHooks
  | NatSetupIptablesHooks
  | BandwidthSetupIptablesHooks
  | IdletimerSetupIptablesHooks
  | EnableBandwidthControl bool
  | RouteControllerInit nat
  | ALOGI string 't
  | ALOGE string c_int

record ('w, 't) env =
  perform :: "'t call \<Rightarrow> 'w \<Rightarrow> c_int \<times> 'w"
  getTimeAndReset :: "'w \<Rightarrow> 't \<times> 'w"

record ('w, 't) run =
  world :: 'w
  trace :: "'t call list"

definition invoke :: "('w, 't) env \<Rightarrow> 't call \<Rightarrow> ('w, 't) run \<Rightarrow> c_int \<times> ('w, 't) run" where
  "invoke e c r =
     (let (rc, w) = perform e c (world r)
      in (rc, \<lparr>world = w, trace = trace r @ [c]\<rparr>))"

text \<open>
  The \<open>execIptables\<close> functions are variadic and read their arguments up to the first
  NULL. A \<open>const char*\<close> argument is a \<open>string option\<close>, \<open>None\<close> being NULL.
\<close>

definition va_args :: "string option list \<Rightarrow> string list" where
  "va_args args = map the (takeWhile (\<lambda>a. a \<noteq> None) args)"

definition execIptables ::
  "('w, 't) env \<Rightarrow> IptablesTarget \<Rightarrow> string option list \<Rightarrow> ('w, 't) run \<Rightarrow> c_int \<times> ('w, 't) run" where
  "execIptables e target args r = invoke e (ExecIptables target (va_args args)) r"

definition execIptablesSilently ::
  "('w, 't) env \<Rightarrow> IptablesTarget \<Rightarrow> string option list \<Rightarrow> ('w, 't) run \<Rightarrow> c_int \<times> ('w, 't) run" where
  "execIptablesSilently e target args r = invoke e (ExecIptablesSilently target (va_args args)) r"

definition execIptablesRestore ::
  "('w, 't) env \<Rightarrow> IptablesTarget \<Rightarrow> string \<Rightarrow> ('w, 't) run \<Rightarrow> c_int \<times> ('w, 't) run" where
  "execIptablesRestore e target command r = invoke e (ExecIptablesRestore target command) r"

text \<open>
  \<open>ALOGI(fmt, s.getTimeAndReset())\<close>: read the stopwatch, then log. The two \<open>Stopwatch\<close>
  objects of the file are only ever read this way; their class is not in Controllers.cpp
  and the value read is whatever the environment returns.
\<close>

definition logTime :: "('w, 't) env \<Rightarrow> string \<Rightarrow> ('w, 't) run \<Rightarrow> ('w, 't) run" where
  "logTime e fmt r =
     (let (t, w) = getTimeAndReset e (world r)
      in snd (invoke e (ALOGI fmt t) (r\<lparr>world := w\<rparr>)))"

section \<open>The chain names and the topology arrays\<close>

text \<open>
  The child chain names are string constants of the feature modules' headers and of
  oem_iptables_hook.h, and \<open>LOCAL_NET_ID\<close> is a constant of NetworkController; none of
  them is defined in Controllers.cpp, so they are parameters of the model. A chain name is
  taken to be a string, never NULL: the only NULL of an array is the terminator the file
  writes itself.
\<close>

record chain_names =
  BandwidthController_LOCAL_INPUT :: string
  BandwidthController_LOCAL_FORWARD :: string
  BandwidthController_LOCAL_OUTPUT :: string
  BandwidthController_LOCAL_RAW_PREROUTING :: string
  BandwidthController_LOCAL_MANGLE_POSTROUTING :: string
  FirewallController_LOCAL_INPUT :: string
  FirewallController_LOCAL_FORWARD :: string
  FirewallController_LOCAL_OUTPUT :: string
  NatController_LOCAL_FORWARD :: string
  NatController_LOCAL_RAW_PREROUTING :: string
  NatController_LOCAL_MANGLE_FORWARD :: string
  NatController_LOCAL_NAT_POSTROUTING :: string
  StrictController_LOCAL_OUTPUT :: string
  IdletimerController_LOCAL_RAW_PREROUTING :: string
  IdletimerController_LOCAL_MANGLE_POSTROUTING :: string
  OEM_IPTABLES_FILTER_FORWARD :: string
  OEM_IPTABLES_FILTER_OUTPUT :: string
  OEM_IPTABLES_MANGLE_POSTROUTING :: string
  OEM_IPTABLES_NAT_PREROUTING :: string
  NetworkController_LOCAL_NET_ID :: nat

text \<open>A NULL-terminated \<open>const char*[]\<close>: the list of its elements, \<open>None\<close> for NULL.\<close>

definition FILTER_INPUT :: "chain_names \<Rightarrow> string option list" where
  "FILTER_INPUT n =
     [Some (BandwidthController_LOCAL_INPUT n),
      Some (FirewallController_LOCAL_INPUT n),
      None]"

definition FILTER_FORWARD :: "chain_names \<Rightarrow> string option list" where
  "FILTER_FORWARD n =
     [Some (OEM_IPTABLES_FILTER_FORWARD n),
      Some (FirewallController_LOCAL_FORWARD n),
      Some (BandwidthController_LOCAL_FORWARD n),
      Some (NatController_LOCAL_FORWARD n),
      None]"

definition FILTER_OUTPUT :: "chain_names \<Rightarrow> string option list" where
  "FILTER_OUTPUT n =
     [Some (OEM_IPTABLES_FILTER_OUTPUT n),
      Some (FirewallController_LOCAL_OUTPUT n),
      Some (StrictController_LOCAL_OUTPUT n),
      Some (BandwidthController_LOCAL_OUTPUT n),
      None]"

definition RAW_PREROUTING :: "chain_names \<Rightarrow> string option list" where
  "RAW_PREROUTING n =
     [Some (BandwidthController_LOCAL_RAW_PREROUTING n),
      Some (IdletimerController_LOCAL_RAW_PREROUTING n),
      Some (NatController_LOCAL_RAW_PREROUTING n),
      None]"

definition MANGLE_POSTROUTING :: "chain_names \<Rightarrow> string option list" where
  "MANGLE_POSTROUTING n =
     [Some (OEM_IPTABLES_MANGLE_POSTROUTING n),
      Some (BandwidthController_LOCAL_MANGLE_POSTROUTING n),
      Some (IdletimerController_LOCAL_MANGLE_POSTROUTING n),
      None]"

definition MANGLE_FORWARD :: "chain_names \<Rightarrow> string option list" where
  "MANGLE_FORWARD n = [Some (NatController_LOCAL_MANGLE_FORWARD n), None]"

definition NAT_PREROUTING :: "chain_names \<Rightarrow> string option list" where
  "NAT_PREROUTING n = [Some (OEM_IPTABLES_NAT_PREROUTING n), None]"

definition NAT_POSTROUTING :: "chain_names \<Rightarrow> string option list" where
  "NAT_POSTROUTING n = [Some (NatController_LOCAL_NAT_POSTROUTING n), None]"

section \<open>The two installers\<close>

text \<open>
  Undefined behaviour of the C++ program is a value: reading an array element past its
  end, and formatting a NULL pointer with \<open>%s\<close>.
\<close>

datatype fault = OutOfBounds | NullString

definition andThen :: "fault + 'a \<Rightarrow> ('a \<Rightarrow> fault + 'b) \<Rightarrow> fault + 'b" where
  "andThen m f = (case m of Inl x \<Rightarrow> Inl x | Inr a \<Rightarrow> f a)"

text \<open>
  The body of the do-while loop of \<open>createChildChains\<close> for the element \<open>*childChain\<close>:
  five invocations, every exit status dropped.
\<close>

definition createChildChains_body ::
  "('w, 't) env \<Rightarrow> IptablesTarget \<Rightarrow> string \<Rightarrow> string \<Rightarrow> string option \<Rightarrow> ('w, 't) run \<Rightarrow> ('w, 't) run" where
  "createChildChains_body e target table parentChain child r0 =
     (let r1 = snd (execIptablesSilently e target
                 [Some ''-t'', Some table, Some ''-D'', Some parentChain, Some ''-j'', child, None] r0);
          r2 = snd (execIptablesSilently e target
                 [Some ''-t'', Some table, Some ''-F'', child, None] r1);
          r3 = snd (execIptablesSilently e target
                 [Some ''-t'', Some table, Some ''-X'', child, None] r2);
          r4 = snd (execIptables e target
                 [Some ''-t'', Some table, Some ''-N'', child, None] r3);
          r5 = snd (execIptables e target
                 [Some ''-t'', Some table, Some ''-A'', Some parentChain, Some ''-j'', child, None] r4)
      in r5)"

text \<open>
  The loop, with the pointer \<open>childChain\<close> as the index \<open>i\<close> into the array: the body
  runs on element \<open>i\<close> before anything is tested, then \<open>*(++childChain)\<close> reads element
  \<open>i + 1\<close>.
\<close>

function createChildChains_loop ::
  "('w, 't) env \<Rightarrow> IptablesTarget \<Rightarrow> string \<Rightarrow> string \<Rightarrow> string option list \<Rightarrow> nat
     \<Rightarrow> ('w, 't) run \<Rightarrow> fault + ('w, 't) run" where
  "createChildChains_loop e target table parentChain childChains i r =
     (if length childChains \<le> i then Inl OutOfBounds
      else
        let r' = createChildChains_body e target table parentChain (childChains ! i) r
        in if length childChains \<le> Suc i then Inl OutOfBounds
           else if childChains ! Suc i \<noteq> None
             then createChildChains_loop e target table parentChain childChains (Suc i) r'
             else Inr r')"
  by pat_completeness auto
termination
  by (relation "measure (\<lambda>(e, target, table, parentChain, childChains, i, r). length childChains - i)") auto

definition createChildChains ::
  "('w, 't) env \<Rightarrow> IptablesTarget \<Rightarrow> string \<Rightarrow> string \<Rightarrow> string option list
     \<Rightarrow> ('w, 't) run \<Rightarrow> fault + ('w, 't) run" where
  "createChildChains e target table parentChain childChains r =
     createChildChains_loop e target table parentChain childChains 0 r"

text \<open>The loop of \<open>createChildChainsFast\<close>, which only extends the string \<open>command\<close>.\<close>

function createChildChainsFast_loop ::
  "string \<Rightarrow> string option list \<Rightarrow> nat \<Rightarrow> string \<Rightarrow> fault + string" where
  "createChildChainsFast_loop parentChain childChains i command =
     (if length childChains \<le> i then Inl OutOfBounds
      else case childChains ! i of
        None \<Rightarrow> Inl NullString
      | Some child \<Rightarrow>
          let command1 = command @ '':'' @ child @ '' -\<newline>'';
              command2 = command1 @ ''-A '' @ parentChain @ '' -j '' @ child @ ''\<newline>''
          in if length childChains \<le> Suc i then Inl OutOfBounds
             else if childChains ! Suc i \<noteq> None
               then createChildChainsFast_loop parentChain childChains (Suc i) command2
               else Inr command2)"
  by pat_completeness auto
termination
  by (relation "measure (\<lambda>(parentChain, childChains, i, command). length childChains - i)") auto

definition createChildChainsFast ::
  "('w, 't) env \<Rightarrow> IptablesTarget \<Rightarrow> string \<Rightarrow> string \<Rightarrow> string option list
     \<Rightarrow> ('w, 't) run \<Rightarrow> fault + ('w, 't) run" where
  "createChildChainsFast e target table parentChain childChains r =
     (let command0 = ''*'' @ table @ ''\<newline>'';
          command1 = command0 @ '':'' @ parentChain @ '' -\<newline>'';
          command2 = command1 @ ''-F '' @ parentChain @ ''\<newline>''
      in andThen (createChildChainsFast_loop parentChain childChains 0 command2)
           (\<lambda>command3. Inr (snd (execIptablesRestore e target (command3 @ ''COMMIT\<newline>\<newline>'') r))))"

section \<open>Controllers::initIptablesRules and Controllers::init\<close>

text \<open>Lines 149 to 158 of the file: the eight installer calls and their log line.\<close>

definition initIptablesRules_chains ::
  "('w, 't) env \<Rightarrow> chain_names \<Rightarrow> ('w, 't) run \<Rightarrow> fault + ('w, 't) run" where
  "initIptablesRules_chains e n r0 =
     andThen (createChildChainsFast e V4V6 ''filter'' ''INPUT'' (FILTER_INPUT n) r0) (\<lambda>r1.
     andThen (createChildChainsFast e V4V6 ''filter'' ''FORWARD'' (FILTER_FORWARD n) r1) (\<lambda>r2.
     andThen (createChildChains e V4V6 ''filter'' ''OUTPUT'' (FILTER_OUTPUT n) r2) (\<lambda>r3.
     andThen (createChildChainsFast e V4V6 ''raw'' ''PREROUTING'' (RAW_PREROUTING n) r3) (\<lambda>r4.
     andThen (createChildChains e V4V6 ''mangle'' ''POSTROUTING'' (MANGLE_POSTROUTING n) r4) (\<lambda>r5.
     andThen (createChildChainsFast e V4V6 ''mangle'' ''FORWARD'' (MANGLE_FORWARD n) r5) (\<lambda>r6.
     andThen (createChildChainsFast e V4 ''nat'' ''PREROUTING'' (NAT_PREROUTING n) r6) (\<lambda>r7.
     andThen (createChildChainsFast e V4 ''nat'' ''POSTROUTING'' (NAT_POSTROUTING n) r7) (\<lambda>r8.
     Inr (logTime e ''Creating child chains: %.1fms'' r8)))))))))"

text \<open>Lines 160 to 184: every module sets up its child chains.\<close>

definition initIptablesRules_hooks :: "('w, 't) env \<Rightarrow> ('w, 't) run \<Rightarrow> ('w, 't) run" where
  "initIptablesRules_hooks e r0 =
     (let r1 = snd (invoke e SetupOemIptablesHook r0);
          r2 = logTime e ''Setting up OEM hooks: %.1fms'' r1;
          r3 = snd (invoke e FirewallSetupIptablesHooks r2);
          r4 = logTime e ''Setting up FirewallController hooks: %.1fms'' r3;
          r5 = snd (invoke e NatSetupIptablesHooks r4);
          r6 = logTime e ''Setting up NatController hooks: %.1fms'' r5;
          r7 = snd (invoke e BandwidthSetupIptablesHooks r6);
          r8 = logTime e ''Setting up BandwidthController hooks: %.1fms'' r7;
          r9 = snd (invoke e IdletimerSetupIptablesHooks r8);
          r10 = logTime e ''Setting up IdletimerController hooks: %.1fms'' r9
      in r10)"

definition initIptablesRules ::
  "('w, 't) env \<Rightarrow> chain_names \<Rightarrow> ('w, 't) run \<Rightarrow> fault + ('w, 't) run" where
  "initIptablesRules e n r =
     andThen (initIptablesRules_chains e n r) (\<lambda>r'. Inr (initIptablesRules_hooks e r'))"

text \<open>
  Lines 187 to 198. \<open>int ret\<close> is the 32-bit status of \<open>RouteController::Init\<close>, and
  \<open>strerror(-ret)\<close> receives its 32-bit negation.
\<close>

definition init :: "('w, 't) env \<Rightarrow> chain_names \<Rightarrow> ('w, 't) run \<Rightarrow> fault + ('w, 't) run" where
  "init e n r0 =
     andThen (initIptablesRules e n r0) (\<lambda>r1.
       let r2 = snd (invoke e (EnableBandwidthControl False) r1);
           r3 = logTime e ''Disabling bandwidth control: %.1fms'' r2;
           (ret, r4) = invoke e (RouteControllerInit (NetworkController_LOCAL_NET_ID n)) r3;
           r5 = (if ret \<noteq> 0
                 then snd (invoke e (ALOGE ''failed to initialize RouteController (%s)'' (- ret)) r4)
                 else r4)
       in Inr (logTime e ''Initializing RouteController: %.1fms'' r5))"


section \<open>The topology as the specification words it\<close>

text \<open>
  The specification speaks of topology entries: an address-family target, a table, a
  parent chain, the ordered child chains and an installation strategy. The source has no
  such table, only the eight calls of \<open>initIptablesRules\<close>; \<open>topology\<close> lists them in the
  specification's terms, and \<open>install_entries\<close> is what installing the entries one after
  the other means. Their agreement with the source is a lemma below.
\<close>

datatype strategy = Safe | Fast

record entry =
  e_strategy :: strategy
  e_target :: IptablesTarget
  e_table :: string
  e_parent :: string
  e_children :: "string list"

definition topology :: "chain_names \<Rightarrow> entry list" where
  "topology n =
     [\<lparr>e_strategy = Fast, e_target = V4V6, e_table = ''filter'', e_parent = ''INPUT'',
        e_children = [BandwidthController_LOCAL_INPUT n, FirewallController_LOCAL_INPUT n]\<rparr>,
      \<lparr>e_strategy = Fast, e_target = V4V6, e_table = ''filter'', e_parent = ''FORWARD'',
        e_children = [OEM_IPTABLES_FILTER_FORWARD n, FirewallController_LOCAL_FORWARD n,
          BandwidthController_LOCAL_FORWARD n, NatController_LOCAL_FORWARD n]\<rparr>,
      \<lparr>e_strategy = Safe, e_target = V4V6, e_table = ''filter'', e_parent = ''OUTPUT'',
        e_children = [OEM_IPTABLES_FILTER_OUTPUT n, FirewallController_LOCAL_OUTPUT n,
          StrictController_LOCAL_OUTPUT n, BandwidthController_LOCAL_OUTPUT n]\<rparr>,
      \<lparr>e_strategy = Fast, e_target = V4V6, e_table = ''raw'', e_parent = ''PREROUTING'',
        e_children = [BandwidthController_LOCAL_RAW_PREROUTING n,
          IdletimerController_LOCAL_RAW_PREROUTING n, NatController_LOCAL_RAW_PREROUTING n]\<rparr>,
      \<lparr>e_strategy = Safe, e_target = V4V6, e_table = ''mangle'', e_parent = ''POSTROUTING'',
        e_children = [OEM_IPTABLES_MANGLE_POSTROUTING n,
          BandwidthController_LOCAL_MANGLE_POSTROUTING n,
          IdletimerController_LOCAL_MANGLE_POSTROUTING n]\<rparr>,
      \<lparr>e_strategy = Fast, e_target = V4V6, e_table = ''mangle'', e_parent = ''FORWARD'',
        e_children = [NatController_LOCAL_MANGLE_FORWARD n]\<rparr>,
      \<lparr>e_strategy = Fast, e_target = V4, e_table = ''nat'', e_parent = ''PREROUTING'',
        e_children = [OEM_IPTABLES_NAT_PREROUTING n]\<rparr>,
      \<lparr>e_strategy = Fast, e_target = V4, e_table = ''nat'', e_parent = ''POSTROUTING'',
        e_children = [NatController_LOCAL_NAT_POSTROUTING n]\<rparr>]"

definition install_entry :: "('w, 't) env \<Rightarrow> entry \<Rightarrow> ('w, 't) run \<Rightarrow> fault + ('w, 't) run" where
  "install_entry e x r =
     (case e_strategy x of
        Fast \<Rightarrow> createChildChainsFast e (e_target x) (e_table x) (e_parent x)
                  (map Some (e_children x) @ [None]) r
      | Safe \<Rightarrow> createChildChains e (e_target x) (e_table x) (e_parent x)
                  (map Some (e_children x) @ [None]) r)"

fun install_entries :: "('w, 't) env \<Rightarrow> entry list \<Rightarrow> ('w, 't) run \<Rightarrow> fault + ('w, 't) run" where
  "install_entries e [] r = Inr r"
| "install_entries e (x # xs) r = andThen (install_entry e x r) (install_entries e xs)"

text \<open>The five invocations of the safe strategy for one child, as the specification lists them.\<close>

definition safe_calls :: "IptablesTarget \<Rightarrow> string \<Rightarrow> string \<Rightarrow> string \<Rightarrow> 't call list" where
  "safe_calls target table parent child =
     [ExecIptablesSilently target [''-t'', table, ''-D'', parent, ''-j'', child],
      ExecIptablesSilently target [''-t'', table, ''-F'', child],
      ExecIptablesSilently target [''-t'', table, ''-X'', child],
      ExecIptables target [''-t'', table, ''-N'', child],
      ExecIptables target [''-t'', table, ''-A'', parent, ''-j'', child]]"

text \<open>
  The transactional script of the fast strategy: table selector, reset and flush of the
  parent, reset and jump for every child, commit.
\<close>

definition child_lines :: "string \<Rightarrow> string \<Rightarrow> string" where
  "child_lines parent child =
     '':'' @ child @ '' -\<newline>'' @ ''-A '' @ parent @ '' -j '' @ child @ ''\<newline>''"

definition fast_script :: "string \<Rightarrow> string \<Rightarrow> string list \<Rightarrow> string" where
  "fast_script table parent children =
     ''*'' @ table @ ''\<newline>'' @
     '':'' @ parent @ '' -\<newline>'' @
     ''-F '' @ parent @ ''\<newline>'' @
     concat (map (child_lines parent) children) @
     ''COMMIT\<newline>\<newline>''"

definition entry_calls :: "entry \<Rightarrow> 't call list" where
  "entry_calls x =
     (case e_strategy x of
        Fast \<Rightarrow> [ExecIptablesRestore (e_target x)
                   (fast_script (e_table x) (e_parent x) (e_children x))]
      | Safe \<Rightarrow> concat (map (safe_calls (e_target x) (e_table x) (e_parent x)) (e_children x)))"

definition hook_calls :: "'t call list" where
  "hook_calls =
     [SetupOemIptablesHook, FirewallSetupIptablesHooks, NatSetupIptablesHooks,
      BandwidthSetupIptablesHooks, IdletimerSetupIptablesHooks]"

text \<open>The calls of a run that are not logging.\<close>

fun is_log :: "'t call \<Rightarrow> bool" where
  "is_log (ALOGI fmt t) = True"
| "is_log (ALOGE fmt err) = True"
| "is_log c = False"

definition actions :: "('w, 't) run \<Rightarrow> 't call list" where
  "actions r = filter (\<lambda>c. \<not> is_log c) (trace r)"

fun occurs_in_order :: "'a list \<Rightarrow> 'a list \<Rightarrow> bool" where
  "occurs_in_order [] ys = True"
| "occurs_in_order (x # xs) [] = False"
| "occurs_in_order (x # xs) (y # ys) =
     (if x = y then occurs_in_order xs ys else occurs_in_order (x # xs) ys)"

text \<open>\<open>performed cs res\<close>: the run returned, and did the calls \<open>cs\<close> in this order.\<close>

definition performed :: "'t call list \<Rightarrow> fault + ('w, 't) run \<Rightarrow> bool" where
  "performed cs res =
     (case res of Inl f \<Rightarrow> False | Inr r \<Rightarrow> occurs_in_order cs (actions r))"

text \<open>
  The call \<open>RouteController::Init(NetworkController::LOCAL_NET_ID)\<close> of \<open>init\<close>, in the
  state \<open>init\<close> makes it in: its status and the run after it.
\<close>

definition routing_init_result ::
  "('w, 't) env \<Rightarrow> chain_names \<Rightarrow> ('w, 't) run \<Rightarrow> c_int \<times> ('w, 't) run" where
  "routing_init_result e n r0 =
     invoke e (RouteControllerInit (NetworkController_LOCAL_NET_ID n))
       (logTime e ''Disabling bandwidth control: %.1fms''
          (snd (invoke e (EnableBandwidthControl False) (projr (initIptablesRules e n r0)))))"

text \<open>
  What one call, and what one timing log line, does to the outside world: the second
  component of the environment's answer.
\<close>

definition world_after :: "('w, 't) env \<Rightarrow> 't call \<Rightarrow> 'w \<Rightarrow> 'w" where
  "world_after e c w = snd (perform e c w)"

definition world_after_log :: "('w, 't) env \<Rightarrow> string \<Rightarrow> 'w \<Rightarrow> 'w" where
  "world_after_log e fmt w =
     (let (t, w') = getTimeAndReset e w in snd (perform e (ALOGI fmt t) w'))"

subsection \<open>Concrete environments and names\<close>

text \<open>An environment in which every call exits with status 1, and one in which every call succeeds.\<close>

definition failing_env :: "(unit, unit) env" where
  "failing_env = \<lparr>perform = (\<lambda>c w. (1, w)), getTimeAndReset = (\<lambda>w. ((), w))\<rparr>"

definition quiet_env :: "(unit, unit) env" where
  "quiet_env = \<lparr>perform = (\<lambda>c w. (0, w)), getTimeAndReset = (\<lambda>w. ((), w))\<rparr>"

definition start :: "(unit, unit) run" where
  "start = \<lparr>world = (), trace = []\<rparr>"

text \<open>
  An environment whose world is the journal of every call made so far, and in which every
  call exits with status 1.
\<close>

definition journal_env :: "(unit call list, unit) env" where
  "journal_env = \<lparr>perform = (\<lambda>c w. (1, w @ [c])), getTimeAndReset = (\<lambda>w. ((), w))\<rparr>"

definition journal_start :: "(unit call list, unit) run" where
  "journal_start = \<lparr>world = [], trace = []\<rparr>"

text \<open>One assignment of the chain-name constants, for evaluating the model.\<close>

definition sample_names :: chain_names where
  "sample_names = \<lparr>
     BandwidthController_LOCAL_INPUT = ''bw_INPUT'',
     BandwidthController_LOCAL_FORWARD = ''bw_FORWARD'',
     BandwidthController_LOCAL_OUTPUT = ''bw_OUTPUT'',
     BandwidthController_LOCAL_RAW_PREROUTING = ''bw_raw_PREROUTING'',
     BandwidthController_LOCAL_MANGLE_POSTROUTING = ''bw_mangle_POSTROUTING'',
     FirewallController_LOCAL_INPUT = ''fw_INPUT'',
     FirewallController_LOCAL_FORWARD = ''fw_FORWARD'',
     FirewallController_LOCAL_OUTPUT = ''fw_OUTPUT'',
     NatController_LOCAL_FORWARD = ''natctrl_FORWARD'',
     NatController_LOCAL_RAW_PREROUTING = ''natctrl_raw_PREROUTING'',
     NatController_LOCAL_MANGLE_FORWARD = ''natctrl_mangle_FORWARD'',
     NatController_LOCAL_NAT_POSTROUTING = ''natctrl_nat_POSTROUTING'',
     StrictController_LOCAL_OUTPUT = ''st_OUTPUT'',
     IdletimerController_LOCAL_RAW_PREROUTING = ''idletimer_raw_PREROUTING'',
     IdletimerController_LOCAL_MANGLE_POSTROUTING = ''idletimer_mangle_POSTROUTING'',
     OEM_IPTABLES_FILTER_FORWARD = ''oem_fwd'',
     OEM_IPTABLES_FILTER_OUTPUT = ''oem_out'',
     OEM_IPTABLES_MANGLE_POSTROUTING = ''oem_mangle_post'',
     OEM_IPTABLES_NAT_PREROUTING = ''oem_nat_pre'',
     NetworkController_LOCAL_NET_ID = 99\<rparr>"

section \<open>A simulated rule state\<close>

text \<open>
  Modelled from the spec: what an invocation does to the kernel's rule tables. It is
  decided outside Controllers.cpp, by the bodies of \<open>execIptables\<close>, \<open>execIptablesSilently\<close>
  and \<open>execIptablesRestore\<close>, which Controllers.cpp only calls, and by the
  rule-management tool they run. The definitions of this section stand for them; each is
  written from the specification (its data model, the two installer strategies, the
  external interfaces, the glossary) and from the comments of Controllers.cpp that say
  what \<open>-D\<close>, \<open>-F\<close>, \<open>-X\<close>, \<open>-N\<close>, \<open>-A\<close> and \<open>:chain -\<close> do.
\<close>

text \<open>Modelled from the spec: the address families an AddressFamilyTarget fans out to.\<close>

datatype family = IPv4 | IPv6

fun families :: "IptablesTarget \<Rightarrow> family list" where
  "families V4 = [IPv4]"
| "families V6 = [IPv6]"
| "families V4V6 = [IPv4, IPv6]"

text \<open>
  Modelled from the spec: a rule is a jump to a chain, or a rule this subsystem does not
  own; a chain is an ordered list of rules; a table holds chains by name; each address
  family has its own tables.
\<close>

datatype rule = Jump string | Foreign string

type_synonym chains = "(string \<times> rule list) list"

type_synonym tables = "string \<Rightarrow> chains"

type_synonym netfilter = "family \<Rightarrow> tables"

text \<open>Modelled from the spec: the built-in hook chains, which cannot be deleted.\<close>

definition is_builtin :: "string \<Rightarrow> bool" where
  "is_builtin c = (c \<in> set [''INPUT'', ''FORWARD'', ''OUTPUT'', ''PREROUTING'', ''POSTROUTING''])"

text \<open>Modelled from the spec: some rule of the table jumps to the chain.\<close>

definition referenced :: "string \<Rightarrow> chains \<Rightarrow> bool" where
  "referenced c t = list_ex (\<lambda>(x, rs). Jump c \<in> set rs) t"

text \<open>Modelled from the spec: \<open>-F chain\<close> flushes an existing chain and fails on a missing one.\<close>

definition flush_chain :: "string \<Rightarrow> chains \<Rightarrow> chains option" where
  "flush_chain c t =
     (case map_of t c of None \<Rightarrow> None | Some rs \<Rightarrow> Some (AList.update c [] t))"

text \<open>
  Modelled from the spec: \<open>-X chain\<close> deletes an existing chain; it fails on a missing or
  built-in chain, on a chain that still has rules and on one that a jump rule refers to.
\<close>

definition delete_chain :: "string \<Rightarrow> chains \<Rightarrow> chains option" where
  "delete_chain c t =
     (case map_of t c of
        None \<Rightarrow> None
      | Some rs \<Rightarrow>
          if is_builtin c \<or> rs \<noteq> [] \<or> referenced c t then None
          else Some (AList.delete c t))"

text \<open>Modelled from the spec: \<open>-N chain\<close> creates an empty chain and fails if it exists.\<close>

definition new_chain :: "string \<Rightarrow> chains \<Rightarrow> chains option" where
  "new_chain c t =
     (case map_of t c of None \<Rightarrow> Some (AList.update c [] t) | Some rs \<Rightarrow> None)"

text \<open>
  Modelled from the spec: \<open>-A parent -j child\<close> appends a jump rule; both chains must
  exist.
\<close>

definition append_jump :: "string \<Rightarrow> string \<Rightarrow> chains \<Rightarrow> chains option" where
  "append_jump p c t =
     (case map_of t p of
        None \<Rightarrow> None
      | Some rs \<Rightarrow>
          if map_of t c = None then None
          else Some (AList.update p (rs @ [Jump c]) t))"

text \<open>
  Modelled from the spec: \<open>-D parent -j child\<close> removes the first such jump rule and
  fails when there is none.
\<close>

definition delete_jump :: "string \<Rightarrow> string \<Rightarrow> chains \<Rightarrow> chains option" where
  "delete_jump p c t =
     (case map_of t p of
        None \<Rightarrow> None
      | Some rs \<Rightarrow>
          if Jump c \<in> set rs then Some (AList.update p (remove1 (Jump c) rs) t)
          else None)"

text \<open>Modelled from the spec: one rule command, as its words; \<open>None\<close> is a non-zero exit.\<close>

definition rule_command :: "string list \<Rightarrow> chains \<Rightarrow> chains option" where
  "rule_command ws t =
     (case ws of
        [opt, c] \<Rightarrow>
          if opt = ''-F'' then flush_chain c t
          else if opt = ''-X'' then delete_chain c t
          else if opt = ''-N'' then new_chain c t
          else None
      | [opt, p, j, c] \<Rightarrow>
          if j \<noteq> ''-j'' then None
          else if opt = ''-A'' then append_jump p c t
          else if opt = ''-D'' then delete_jump p c t
          else None
      | _ \<Rightarrow> None)"

text \<open>Modelled from the spec: the per-call invocation \<open>-t table command\<close> on one family.\<close>

definition iptables_command :: "string list \<Rightarrow> tables \<Rightarrow> tables option" where
  "iptables_command args st =
     (case args of
        opt # table # ws \<Rightarrow>
          if opt = ''-t'' then map_option (\<lambda>t. st(table := t)) (rule_command ws (st table))
          else None
      | _ \<Rightarrow> None)"

text \<open>Modelled from the spec: the script is text; its lines and their words.\<close>

fun split_on :: "'a \<Rightarrow> 'a list \<Rightarrow> 'a list list" where
  "split_on d [] = [[]]"
| "split_on d (x # xs) =
     (if x = d then [] # split_on d xs
      else case split_on d xs of w # ws \<Rightarrow> (x # w) # ws | [] \<Rightarrow> [[x]])"

text \<open>
  Modelled from the spec: the chain-reset directive \<open>:chain -\<close> empties a user-defined
  chain, creating it when missing, and leaves a built-in chain as it is.
\<close>

definition reset_chain :: "string \<Rightarrow> chains \<Rightarrow> chains option" where
  "reset_chain c t = (if is_builtin c then Some t else Some (AList.update c [] t))"

text \<open>Modelled from the spec: one line of a script inside a table: a reset directive or a rule command.\<close>

definition restore_line :: "string \<Rightarrow> chains \<Rightarrow> chains option" where
  "restore_line l t =
     (case l of
        [] \<Rightarrow> Some t
      | x # xs \<Rightarrow>
          if x = CHR '':'' then
            (case split_on CHR '' '' xs of
               [c, policy] \<Rightarrow> if policy = ''-'' then reset_chain c t else None
             | _ \<Rightarrow> None)
          else rule_command (split_on CHR '' '' l) t)"

text \<open>
  Modelled from the spec: a script is applied as a unit. \<open>*table\<close> opens a working copy
  of the table, the directives change the copy, \<open>COMMIT\<close> installs it; a directive that
  fails ends the script with nothing of the open table installed.
\<close>

fun restore_lines :: "string list \<Rightarrow> (string \<times> chains) option \<Rightarrow> tables \<Rightarrow> bool \<times> tables" where
  "restore_lines [] cur st = (True, st)"
| "restore_lines (l # ls) cur st =
     (if l = [] then restore_lines ls cur st
      else if hd l = CHR ''*'' then restore_lines ls (Some (tl l, st (tl l))) st
      else case cur of
        None \<Rightarrow> (False, st)
      | Some (table, t) \<Rightarrow>
          if l = ''COMMIT'' then restore_lines ls None (st(table := t))
          else case restore_line l t of
            None \<Rightarrow> (False, st)
          | Some t' \<Rightarrow> restore_lines ls (Some (table, t')) st)"

text \<open>Modelled from the spec: the rule-transaction invocation on one family.\<close>

definition iptables_restore :: "string \<Rightarrow> tables \<Rightarrow> tables option" where
  "iptables_restore script st =
     (case restore_lines (split_on CHR ''\<newline>'' script) None st of
        (True, st') \<Rightarrow> Some st'
      | (False, st') \<Rightarrow> None)"

text \<open>
  Modelled from the spec: an invocation runs the tool once for each family of its target;
  a failing run leaves that family's tables as they were, and the status is non-zero when
  any run failed.
\<close>

fun for_families :: "(tables \<Rightarrow> tables option) \<Rightarrow> family list \<Rightarrow> netfilter \<Rightarrow> c_int \<times> netfilter" where
  "for_families tool [] nf = (0, nf)"
| "for_families tool (fam # fams) nf =
     (case tool (nf fam) of
        None \<Rightarrow> (1, snd (for_families tool fams nf))
      | Some st \<Rightarrow> for_families tool fams (nf(fam := st)))"

text \<open>
  Modelled from the spec: the environment whose world is the rule state. The silent
  variant differs from the ordinary one in logging only; calls other than the three
  invocations leave the rule state alone.
\<close>

fun netfilter_perform :: "'t call \<Rightarrow> netfilter \<Rightarrow> c_int \<times> netfilter" where
  "netfilter_perform (ExecIptables target args) nf =
     for_families (iptables_command args) (families target) nf"
| "netfilter_perform (ExecIptablesSilently target args) nf =
     for_families (iptables_command args) (families target) nf"
| "netfilter_perform (ExecIptablesRestore target script) nf =
     for_families (iptables_restore script) (families target) nf"
| "netfilter_perform c nf = (0, nf)"

definition netfilter_env :: "(netfilter, unit) env" where
  "netfilter_env = \<lparr>perform = netfilter_perform, getTimeAndReset = (\<lambda>nf. ((), nf))\<rparr>"

text \<open>The rule listing of a chain, and the eight installer calls as a function of the rule state.\<close>

definition rules_of :: "netfilter \<Rightarrow> family \<Rightarrow> string \<Rightarrow> string \<Rightarrow> rule list option" where
  "rules_of nf fam table chain = map_of (nf fam table) chain"

definition installed :: "chain_names \<Rightarrow> netfilter \<Rightarrow> netfilter option" where
  "installed n nf =
     (case initIptablesRules_chains netfilter_env n \<lparr>world = nf, trace = []\<rparr> of
        Inl f \<Rightarrow> None
      | Inr r \<Rightarrow> Some (world r))"

text \<open>
  A rule state as after boot: every table has the five hook chains and nothing else, and
  \<open>OUTPUT\<close> holds a vendor rule.
\<close>

definition boot_state :: netfilter where
  "boot_state =
     (\<lambda>fam table. map (\<lambda>c. (c, if c = ''OUTPUT'' then [Foreign ''vendor''] else []))
        [''INPUT'', ''FORWARD'', ''OUTPUT'', ''PREROUTING'', ''POSTROUTING''])"

text \<open>
  A rule state with the five hook chains in every table, in which \<open>OUTPUT\<close> already jumps
  twice to the existing chain \<open>oem_out\<close>.
\<close>

definition duplicated :: netfilter where
  "duplicated =
     (\<lambda>fam table.
        map (\<lambda>c. (c, if c = ''OUTPUT'' then [Jump ''oem_out'', Jump ''oem_out''] else []))
          [''INPUT'', ''FORWARD'', ''OUTPUT'', ''PREROUTING'', ''POSTROUTING'']
        @ [(''oem_out'', [])])"

text \<open>
  The eight installer calls run twice in succession, and the number of jumps from a parent
  chain to a child chain in the state a run leaves.
\<close>

definition installed_twice :: "chain_names \<Rightarrow> netfilter \<Rightarrow> netfilter option" where
  "installed_twice n nf = Option.bind (installed n nf) (installed n)"

definition jumps_after ::
  "netfilter option \<Rightarrow> family \<Rightarrow> string \<Rightarrow> string \<Rightarrow> string \<Rightarrow> nat option" where
  "jumps_after res fam table parent child =
     (case res of
        None \<Rightarrow> None
      | Some nf \<Rightarrow>
          (case rules_of nf fam table parent of
             None \<Rightarrow> None
           | Some rs \<Rightarrow> Some (count_list rs (Jump child))))"

subsection \<open>Conditions on names and states\<close>

text \<open>A name that can stand in a script: no blank and no line break.\<close>

definition wf_name :: "string \<Rightarrow> bool" where
  "wf_name x = (CHR '' '' \<notin> set x \<and> CHR ''\<newline>'' \<notin> set x)"

definition entry_ok :: "entry \<Rightarrow> bool" where
  "entry_ok x =
     (e_children x \<noteq> [] \<and> distinct (e_children x) \<and> wf_name (e_table x) \<and> wf_name (e_parent x)
      \<and> is_builtin (e_parent x) \<and> (\<forall>c\<in>set (e_children x). wf_name c \<and> \<not> is_builtin c))"

definition entries_ok :: "entry list \<Rightarrow> bool" where
  "entries_ok es = (distinct (map (\<lambda>x. (e_table x, e_parent x)) es) \<and> (\<forall>x\<in>set es. entry_ok x))"

text \<open>
  The child names of every entry are distinct, can stand in a script, and are not names
  of hook chains.
\<close>

definition names_ok :: "chain_names \<Rightarrow> bool" where
  "names_ok n =
     (\<forall>x\<in>set (topology n).
        distinct (e_children x) \<and> (\<forall>c\<in>set (e_children x). wf_name c \<and> \<not> is_builtin c))"

type_synonym view = "family \<Rightarrow> string \<Rightarrow> string \<Rightarrow> rule list option"

text \<open>The parent chain of every entry exists in the families the entry targets.\<close>

definition hooks_present :: "entry list \<Rightarrow> view \<Rightarrow> bool" where
  "hooks_present es v =
     (\<forall>x\<in>set es. \<forall>fam\<in>set (families (e_target x)). v fam (e_table x) (e_parent x) \<noteq> None)"

text \<open>No parent chain of a safe entry holds the jump to one of its children twice.\<close>

definition no_duplicate_jumps :: "entry list \<Rightarrow> view \<Rightarrow> bool" where
  "no_duplicate_jumps es v =
     (\<forall>x\<in>set es. \<forall>fam\<in>set (families (e_target x)). \<forall>c\<in>set (e_children x).
        e_strategy x = Safe \<longrightarrow>
        (case v fam (e_table x) (e_parent x) of
           None \<Rightarrow> True
         | Some rs \<Rightarrow> count_list rs (Jump c) \<le> 1))"

subsection \<open>The effect of an installation on the rule listing\<close>

definition attempt :: "('a \<Rightarrow> 'a option) \<Rightarrow> 'a \<Rightarrow> 'a" where
  "attempt tool st = (case tool st of None \<Rightarrow> st | Some st' \<Rightarrow> st')"

definition step_jump :: "string \<Rightarrow> rule list \<Rightarrow> rule list" where
  "step_jump c rs = remove1 (Jump c) rs @ [Jump c]"

definition child_directives :: "string \<Rightarrow> string \<Rightarrow> string list" where
  "child_directives parent child = ['':'' @ child @ '' -'', ''-A '' @ parent @ '' -j '' @ child]"

definition child_update :: "IptablesTarget \<Rightarrow> string \<Rightarrow> string \<Rightarrow> string \<Rightarrow> view \<Rightarrow> view" where
  "child_update target table parent c v =
     (\<lambda>fam t x.
        if fam \<in> set (families target) \<and> t = table then
          (if x = parent then map_option (step_jump c) (v fam t parent)
           else if x = c then Some [] else v fam t x)
        else v fam t x)"

definition entry_update ::
  "(rule list \<Rightarrow> rule list) \<Rightarrow> IptablesTarget \<Rightarrow> string \<Rightarrow> string \<Rightarrow> string list \<Rightarrow> view \<Rightarrow> view" where
  "entry_update g target table parent cs v =
     (\<lambda>fam t x.
        if fam \<in> set (families target) \<and> t = table then
          (if x = parent then map_option g (v fam t parent)
           else if x \<in> set cs then Some [] else v fam t x)
        else v fam t x)"

definition rewrite_of :: "entry \<Rightarrow> rule list \<Rightarrow> rule list" where
  "rewrite_of x =
     (case e_strategy x of
        Fast \<Rightarrow> (\<lambda>rs. map Jump (e_children x))
      | Safe \<Rightarrow> fold step_jump (e_children x))"

definition entry_effect :: "entry \<Rightarrow> view \<Rightarrow> view" where
  "entry_effect x v =
     entry_update (rewrite_of x) (e_target x) (e_table x) (e_parent x) (e_children x) v"

definition applies :: "entry \<Rightarrow> family \<Rightarrow> string \<Rightarrow> bool" where
  "applies x fam t = (fam \<in> set (families (e_target x)) \<and> t = e_table x)"

section \<open>The calls the source functions make\<close>

text \<open>On a NULL-terminated array with at least one child the loops are folds over the children.\<close>

lemma trace_invoke: "trace (snd (invoke e c r)) = trace r @ [c]"
  by (simp add: invoke_def split: prod.split)

lemma trace_logTime:
  "trace (logTime e fmt r) = trace r @ [ALOGI fmt (fst (getTimeAndReset e (world r)))]"
  by (simp add: logTime_def trace_invoke split: prod.split)

lemma trace_body:
  "trace (createChildChains_body e target table parent (Some c) r) =
     trace r @ safe_calls target table parent c"
  by (simp add: createChildChains_body_def execIptables_def execIptablesSilently_def
        trace_invoke va_args_def safe_calls_def)

lemma nth_terminated:
  "i < length cs \<Longrightarrow> (map Some cs @ [None]) ! i = Some (cs ! i)"
  "(map Some cs @ [None]) ! length cs = None"
  by (simp_all add: nth_append)

lemma createChildChains_loop_fold:
  "i < length cs \<Longrightarrow>
   createChildChains_loop e target table parent (map Some cs @ [None]) i r =
     Inr (fold (\<lambda>c. createChildChains_body e target table parent (Some c)) (drop i cs) r)"
proof (induction "length cs - i" arbitrary: i r)
  case 0
  then show ?case by simp
next
  case (Suc k)
  show ?case
  proof (cases "Suc i < length cs")
    case True
    have d: "drop i cs = cs ! i # drop (Suc i) cs"
      using Suc.prems by (simp add: Cons_nth_drop_Suc)
    have "k = length cs - Suc i" using Suc.hyps(2) by simp
    from Suc.hyps(1)[OF this True] show ?thesis
      using True Suc.prems
      by (subst createChildChains_loop.simps) (simp add: nth_terminated nth_append d)
  next
    case False
    then have l: "length cs = Suc i" using Suc.prems by simp
    have d: "drop i cs = [cs ! i]"
      using Suc.prems l by (metis Cons_nth_drop_Suc drop_all le_refl)
    show ?thesis
      using l
      by (subst createChildChains_loop.simps) (simp add: nth_append d)
  qed
qed

lemma trace_fold_body:
  "trace (fold (\<lambda>c. createChildChains_body e target table parent (Some c)) cs r) =
     trace r @ concat (map (safe_calls target table parent) cs)"
  by (induction cs arbitrary: r) (simp_all add: trace_body)

lemma createChildChains_fold:
  "cs \<noteq> [] \<Longrightarrow>
   createChildChains e target table parent (map Some cs @ [None]) r =
     Inr (fold (\<lambda>c. createChildChains_body e target table parent (Some c)) cs r)"
  using createChildChains_loop_fold[of 0 cs] by (simp add: createChildChains_def)

lemma createChildChainsFast_loop_concat:
  "i < length cs \<Longrightarrow>
   createChildChainsFast_loop parent (map Some cs @ [None]) i command =
     Inr (command @ concat (map (child_lines parent) (drop i cs)))"
proof (induction "length cs - i" arbitrary: i command)
  case 0
  then show ?case by simp
next
  case (Suc k)
  show ?case
  proof (cases "Suc i < length cs")
    case True
    have d: "drop i cs = cs ! i # drop (Suc i) cs"
      using Suc.prems by (simp add: Cons_nth_drop_Suc)
    have "k = length cs - Suc i" using Suc.hyps(2) by simp
    from Suc.hyps(1)[OF this True] show ?thesis
      using True Suc.prems
      by (subst createChildChainsFast_loop.simps)
         (simp add: nth_terminated nth_append d child_lines_def)
  next
    case False
    then have l: "length cs = Suc i" using Suc.prems by simp
    have d: "drop i cs = [cs ! i]"
      using Suc.prems l by (metis Cons_nth_drop_Suc drop_all le_refl)
    show ?thesis
      using l
      by (subst createChildChainsFast_loop.simps) (simp add: nth_append d child_lines_def)
  qed
qed

section \<open>Reading a script\<close>

text \<open>
  The lines of the script that the fast installer builds, and what each of them means,
  for names without blanks and line breaks.
\<close>

lemma split_on_nonempty: "split_on d xs \<noteq> []"
  by (induction xs) (auto split: list.splits)

lemma split_on_prefix:
  "d \<notin> set a \<Longrightarrow> split_on d (a @ b) = (a @ hd (split_on d b)) # tl (split_on d b)"
proof (induction a)
  case Nil
  then show ?case using split_on_nonempty[of d b] by simp
next
  case (Cons x a)
  then show ?case by auto
qed

lemma split_on_whole: "d \<notin> set a \<Longrightarrow> split_on d a = [a]"
  using split_on_prefix[of d a "[]"] by simp

lemma lines_children:
  assumes "wf_name parent" "\<forall>c\<in>set cs. wf_name c"
  shows "split_on CHR ''\<newline>'' (concat (map (child_lines parent) cs) @ rest) =
           concat (map (child_directives parent) cs) @ split_on CHR ''\<newline>'' rest"
  using assms
  by (induction cs) (simp_all add: child_lines_def child_directives_def wf_name_def split_on_prefix)

lemma lines_fast_script:
  assumes "wf_name table" "wf_name parent" "\<forall>c\<in>set cs. wf_name c"
  shows "split_on CHR ''\<newline>'' (fast_script table parent cs) =
           [''*'' @ table, '':'' @ parent @ '' -'', ''-F '' @ parent]
           @ concat (map (child_directives parent) cs) @ [''COMMIT'', [], []]"
proof -
  have "split_on CHR ''\<newline>'' (fast_script table parent cs) =
          [''*'' @ table, '':'' @ parent @ '' -'', ''-F '' @ parent]
          @ split_on CHR ''\<newline>'' (concat (map (child_lines parent) cs) @ ''COMMIT\<newline>\<newline>'')"
    using assms(1,2) by (simp add: fast_script_def wf_name_def split_on_prefix)
  then show ?thesis
    using lines_children[OF assms(2,3)] by simp
qed

lemma restore_line_reset:
  "wf_name c \<Longrightarrow> restore_line ('':'' @ c @ '' -'') t = reset_chain c t"
  by (simp add: restore_line_def wf_name_def split_on_prefix)

lemma restore_line_flush:
  "wf_name p \<Longrightarrow> restore_line (''-F '' @ p) t = flush_chain p t"
  by (simp add: restore_line_def wf_name_def split_on_whole rule_command_def)

lemma restore_line_append:
  "wf_name p \<Longrightarrow> wf_name c \<Longrightarrow> restore_line (''-A '' @ p @ '' -j '' @ c) t = append_jump p c t"
  by (simp add: restore_line_def wf_name_def split_on_whole split_on_prefix rule_command_def)

section \<open>The safe strategy on the rule state\<close>

text \<open>
  Whatever the three cleanup commands achieve, after the five commands for a child the
  child chain exists and is empty, and the parent chain has lost one jump to the child, if
  it had one, and gained one at its end.
\<close>

lemma map_of_update: "map_of (AList.update k v t) = (map_of t)(k \<mapsto> v)"
  by (rule update_conv')

lemma map_of_delete: "map_of (AList.delete k t) = (map_of t)(k := None)"
  by (rule delete_conv')

lemma safe_child_table:
  assumes "p \<noteq> c"
  shows "map_of (attempt (append_jump p c) (attempt (new_chain c) (attempt (delete_chain c)
           (attempt (flush_chain c) (attempt (delete_jump p c) t))))) =
         (\<lambda>x. if x = p then map_option (step_jump c) (map_of t p)
               else if x = c then Some [] else map_of t x)"
proof -
  define t1 where "t1 = attempt (delete_jump p c) t"
  define t2 where "t2 = attempt (flush_chain c) t1"
  define t3 where "t3 = attempt (delete_chain c) t2"
  define t4 where "t4 = attempt (new_chain c) t3"
  define t5 where "t5 = attempt (append_jump p c) t4"
  have m1: "map_of t1 = (\<lambda>x. if x = p then map_option (remove1 (Jump c)) (map_of t p) else map_of t x)"
    by (auto simp: t1_def attempt_def delete_jump_def map_of_update fun_eq_iff remove1_idem
             split: option.splits)
  have m2: "map_of t2 = (\<lambda>x. if x = c then map_option (\<lambda>_. []) (map_of t1 c) else map_of t1 x)"
    by (auto simp: t2_def attempt_def flush_chain_def map_of_update fun_eq_iff split: option.splits)
  have m3: "map_of t3 = map_of t2 \<or> map_of t3 = (map_of t2)(c := None)"
    by (auto simp: t3_def attempt_def delete_chain_def map_of_delete split: option.splits)
  have m4: "map_of t4 = (map_of t3)(c \<mapsto> case map_of t3 c of None \<Rightarrow> [] | Some rs \<Rightarrow> rs)"
    by (auto simp: t4_def attempt_def new_chain_def map_of_update fun_eq_iff split: option.splits)
  have c4: "map_of t4 = (map_of t1)(c \<mapsto> [])"
    using m3 m4 m2 by (auto simp: fun_eq_iff split: option.splits)
  have m5: "map_of t5 = (\<lambda>x. if x = p then map_option (\<lambda>rs. rs @ [Jump c]) (map_of t4 p) else map_of t4 x)"
    using c4 by (auto simp: t5_def attempt_def append_jump_def map_of_update fun_eq_iff split: option.splits)
  have "map_of t5 = (\<lambda>x. if x = p then map_option (step_jump c) (map_of t p)
               else if x = c then Some [] else map_of t x)"
    using assms by (cases "map_of t p") (auto simp: m5 c4 m1 fun_eq_iff step_jump_def)
  then show ?thesis
    by (simp add: t1_def t2_def t3_def t4_def t5_def)
qed

lemma attempt_iptables_command:
  "attempt (iptables_command (''-t'' # table # ws)) st =
     st(table := attempt (rule_command ws) (st table))"
  by (auto simp: attempt_def iptables_command_def split: option.splits)

lemma for_families_world:
  "distinct fams \<Longrightarrow>
   snd (for_families tool fams nf) =
     (\<lambda>fam. if fam \<in> set fams then attempt tool (nf fam) else nf fam)"
proof (induction fams arbitrary: nf)
  case Nil
  then show ?case by simp
next
  case (Cons f fams)
  then show ?case
    by (cases "tool (nf f)") (auto simp: attempt_def fun_eq_iff)
qed

lemma distinct_families: "distinct (families target)"
  by (cases target) simp_all

lemma world_invoke: "world (snd (invoke e c r)) = snd (perform e c (world r))"
  by (simp add: invoke_def split: prod.split)

lemma world_exec:
  "world (snd (invoke netfilter_env (ExecIptables target args) r)) =
     (\<lambda>fam. if fam \<in> set (families target)
            then attempt (iptables_command args) (world r fam) else world r fam)"
  "world (snd (invoke netfilter_env (ExecIptablesSilently target args) r)) =
     (\<lambda>fam. if fam \<in> set (families target)
            then attempt (iptables_command args) (world r fam) else world r fam)"
  "world (snd (invoke netfilter_env (ExecIptablesRestore target script) r)) =
     (\<lambda>fam. if fam \<in> set (families target)
            then attempt (iptables_restore script) (world r fam) else world r fam)"
  by (simp_all add: world_invoke netfilter_env_def for_families_world distinct_families)

lemma rule_command_simps:
  "rule_command [''-D'', p, ''-j'', c] = delete_jump p c"
  "rule_command [''-F'', c] = flush_chain c"
  "rule_command [''-X'', c] = delete_chain c"
  "rule_command [''-N'', c] = new_chain c"
  "rule_command [''-A'', p, ''-j'', c] = append_jump p c"
  by (simp_all add: rule_command_def fun_eq_iff)

lemma rules_of_body:
  assumes "parent \<noteq> c"
  shows "rules_of (world (createChildChains_body netfilter_env target table parent (Some c) r)) =
           child_update target table parent c (rules_of (world r))"
proof -
  have w: "world (createChildChains_body netfilter_env target table parent (Some c) r) =
          (\<lambda>fam. if fam \<in> set (families target)
             then (world r fam)(table :=
               attempt (append_jump parent c) (attempt (new_chain c) (attempt (delete_chain c)
                 (attempt (flush_chain c) (attempt (delete_jump parent c) (world r fam table))))))
             else world r fam)"
    by (simp add: createChildChains_body_def execIptables_def execIptablesSilently_def va_args_def
        world_exec attempt_iptables_command rule_command_simps fun_eq_iff)
  show ?thesis
    unfolding w
    by (simp add: rules_of_def child_update_def fun_eq_iff safe_child_table[OF assms])
qed

lemma fold_child_update:
  "parent \<notin> set cs \<Longrightarrow>
   fold (child_update target table parent) cs v =
     entry_update (fold step_jump cs) target table parent cs v"
proof (induction cs arbitrary: v)
  case Nil
  show ?case by (simp add: entry_update_def fun_eq_iff option.map_ident)
next
  case (Cons c cs)
  have "fold (child_update target table parent) (c # cs) v =
        entry_update (fold step_jump cs) target table parent cs (child_update target table parent c v)"
    using Cons by simp
  also have "\<dots> = entry_update (fold step_jump (c # cs)) target table parent (c # cs) v"
    using Cons.prems
    by (auto simp: entry_update_def child_update_def fun_eq_iff option.map_comp comp_def)
  finally show ?case .
qed

lemma rules_of_fold_body:
  "parent \<notin> set cs \<Longrightarrow>
   rules_of (world (fold (\<lambda>c. createChildChains_body netfilter_env target table parent (Some c)) cs r)) =
     fold (child_update target table parent) cs (rules_of (world r))"
  by (induction cs arbitrary: r) (auto simp: rules_of_body)

lemma safe_semantics:
  assumes "cs \<noteq> []" "parent \<notin> set cs"
  shows "\<exists>r'. createChildChains netfilter_env target table parent (map Some cs @ [None]) r = Inr r'
           \<and> rules_of (world r') =
               entry_update (fold step_jump cs) target table parent cs (rules_of (world r))"
  using assms by (simp add: createChildChains_fold rules_of_fold_body fold_child_update)

section \<open>The fast strategy on the rule state\<close>

text \<open>
  When the parent chain exists, the transaction succeeds and leaves the parent chain with
  exactly the jumps to the children, in order, and every child chain empty.
\<close>

lemma createChildChainsFast_script:
  assumes "cs \<noteq> []"
  shows "createChildChainsFast e target table parent (map Some cs @ [None]) r =
           Inr (snd (execIptablesRestore e target (fast_script table parent cs) r))"
  using assms createChildChainsFast_loop_concat[of 0 cs parent]
  by (simp add: createChildChainsFast_def andThen_def fast_script_def)

lemma restore_children:
  assumes "wf_name p" "\<forall>c\<in>set cs. wf_name c \<and> \<not> is_builtin c" "p \<notin> set cs" "map_of t p = Some rs"
  shows "\<exists>t'. restore_lines (concat (map (child_directives p) cs) @ rest) (Some (table, t)) st =
                restore_lines rest (Some (table, t')) st
            \<and> map_of t' = (\<lambda>x. if x = p then Some (rs @ map Jump cs)
                               else if x \<in> set cs then Some [] else map_of t x)"
  using assms
proof (induction cs arbitrary: t rs)
  case Nil
  then show ?case by (auto simp: fun_eq_iff)
next
  case (Cons c cs)
  define t1 where "t1 = AList.update p (rs @ [Jump c]) (AList.update c [] t)"
  have pc: "p \<noteq> c" using Cons.prems by auto
  have r1: "restore_line ('':'' @ c @ '' -'') t = Some (AList.update c [] t)"
    using Cons.prems restore_line_reset[of c t] by (simp add: reset_chain_def)
  have r2: "restore_line (''-A '' @ p @ '' -j '' @ c) (AList.update c [] t) = Some t1"
    using Cons.prems pc restore_line_append[of p c "AList.update c [] t"]
    by (simp add: append_jump_def map_of_update t1_def)
  have step: "restore_lines (concat (map (child_directives p) (c # cs)) @ rest) (Some (table, t)) st =
              restore_lines (concat (map (child_directives p) cs) @ rest) (Some (table, t1)) st"
    using r1 r2 by (simp add: child_directives_def)
  have m1: "map_of t1 p = Some (rs @ [Jump c])"
    by (simp add: t1_def map_of_update)
  from Cons.IH[OF Cons.prems(1) _ _ m1, of ] Cons.prems
  obtain t' where t': "restore_lines (concat (map (child_directives p) cs) @ rest) (Some (table, t1)) st =
                restore_lines rest (Some (table, t')) st"
     "map_of t' = (\<lambda>x. if x = p then Some ((rs @ [Jump c]) @ map Jump cs)
                               else if x \<in> set cs then Some [] else map_of t1 x)"
    by auto
  have "map_of t' = (\<lambda>x. if x = p then Some (rs @ map Jump (c # cs))
                               else if x \<in> set (c # cs) then Some [] else map_of t x)"
    using pc by (auto simp: t'(2) t1_def map_of_update fun_eq_iff)
  then show ?case using step t'(1) by auto
qed

lemma restore_fast_script:
  assumes "wf_name table" "wf_name parent" "\<forall>c\<in>set cs. wf_name c \<and> \<not> is_builtin c"
    "parent \<notin> set cs" "map_of (st table) parent \<noteq> None"
  shows "\<exists>t'. iptables_restore (fast_script table parent cs) st = Some (st(table := t'))
            \<and> map_of t' = (\<lambda>x. if x = parent then Some (map Jump cs)
                               else if x \<in> set cs then Some [] else map_of (st table) x)"
proof -
  define t0 where "t0 = (if is_builtin parent then st table else AList.update parent [] (st table))"
  define t1 where "t1 = AList.update parent [] t0"
  have wfc: "\<forall>c\<in>set cs. wf_name c" using assms(3) by simp
  have h1: "restore_line ('':'' @ parent @ '' -'') (st table) = Some t0"
    using assms(2) restore_line_reset[of parent "st table"] by (simp add: reset_chain_def t0_def)
  have e0: "map_of t0 parent \<noteq> None"
    using assms(5) by (simp add: t0_def map_of_update)
  have h2: "restore_line (''-F '' @ parent) t0 = Some t1"
    using assms(2) e0 restore_line_flush[of parent t0] by (auto simp: flush_chain_def t1_def)
  have m1: "map_of t1 = (map_of (st table))(parent \<mapsto> [])"
    by (auto simp: t1_def t0_def map_of_update)
  then have p1: "map_of t1 parent = Some []" by simp
  from restore_children[OF assms(2) assms(3) assms(4) p1, of "[''COMMIT'', [], []]" table st]
  obtain t' where t':
    "restore_lines (concat (map (child_directives parent) cs) @ [''COMMIT'', [], []]) (Some (table, t1)) st =
       restore_lines [''COMMIT'', [], []] (Some (table, t')) st"
    "map_of t' = (\<lambda>x. if x = parent then Some ([] @ map Jump cs)
                               else if x \<in> set cs then Some [] else map_of t1 x)"
    by blast
  have "restore_lines (split_on CHR ''\<newline>'' (fast_script table parent cs)) None st =
          restore_lines (concat (map (child_directives parent) cs) @ [''COMMIT'', [], []]) (Some (table, t1)) st"
    using h1 h2 by (simp add: lines_fast_script[OF assms(1,2) wfc])
  also have "\<dots> = (True, st(table := t'))"
    by (simp add: t'(1))
  finally have "iptables_restore (fast_script table parent cs) st = Some (st(table := t'))"
    by (simp add: iptables_restore_def)
  moreover have "map_of t' = (\<lambda>x. if x = parent then Some (map Jump cs)
                               else if x \<in> set cs then Some [] else map_of (st table) x)"
    by (auto simp: t'(2) m1 fun_eq_iff)
  ultimately show ?thesis by blast
qed

lemma fast_semantics:
  assumes "cs \<noteq> []" "wf_name table" "wf_name parent" "\<forall>c\<in>set cs. wf_name c \<and> \<not> is_builtin c"
    "parent \<notin> set cs"
    "\<forall>fam\<in>set (families target). rules_of (world r) fam table parent \<noteq> None"
  shows "\<exists>r'. createChildChainsFast netfilter_env target table parent (map Some cs @ [None]) r = Inr r'
           \<and> rules_of (world r') =
               entry_update (\<lambda>_. map Jump cs) target table parent cs (rules_of (world r))"
proof -
  let ?r' = "snd (execIptablesRestore netfilter_env target (fast_script table parent cs) r)"
  have "rules_of (world ?r') fam t x =
        entry_update (\<lambda>_. map Jump cs) target table parent cs (rules_of (world r)) fam t x" for fam t x
  proof (cases "fam \<in> set (families target)")
    case True
    then have ex: "map_of (world r fam table) parent \<noteq> None"
      using assms(6) by (simp add: rules_of_def)
    from restore_fast_script[of table parent cs "world r fam", OF assms(2,3,4,5) ex]
    obtain t' where t': "iptables_restore (fast_script table parent cs) (world r fam) = Some ((world r fam)(table := t'))"
      "map_of t' = (\<lambda>x. if x = parent then Some (map Jump cs)
                               else if x \<in> set cs then Some [] else map_of (world r fam table) x)"
      by blast
    show ?thesis
      using True ex
      by (auto simp: execIptablesRestore_def world_exec attempt_def t' rules_of_def entry_update_def)
  next
    case False
    then show ?thesis
      by (simp add: execIptablesRestore_def world_exec rules_of_def entry_update_def)
  qed
  then have "rules_of (world ?r') = entry_update (\<lambda>_. map Jump cs) target table parent cs (rules_of (world r))"
    by (simp add: fun_eq_iff)
  then show ?thesis
    by (simp add: createChildChainsFast_script[OF assms(1)])
qed

section \<open>Deleting and appending a jump, repeated\<close>

text \<open>
  On a chain that holds no jump to a child twice, one pass of the safe strategy moves the
  jumps to the end of the chain, in the order of the children; a second pass changes
  nothing.
\<close>

lemma count_list_filter_le: "count_list (filter P xs) x \<le> count_list xs x"
  by (induction xs) auto

lemma remove1_as_filter:
  "count_list ys x \<le> 1 \<Longrightarrow> remove1 x ys = filter (\<lambda>y. y \<noteq> x) ys"
proof (induction ys)
  case Nil
  then show ?case by simp
next
  case (Cons y ys)
  show ?case
  proof (cases "y = x")
    case True
    then have "x \<notin> set ys" using Cons.prems by (simp add: count_list_0_iff)
    then have "filter (\<lambda>y. y \<noteq> x) ys = ys" by (auto simp: filter_id_conv)
    then show ?thesis using True by simp
  next
    case False
    then show ?thesis using Cons by simp
  qed
qed

lemma fold_step_jump_closed:
  "distinct cs \<Longrightarrow> \<forall>c\<in>set cs. count_list rs (Jump c) \<le> 1 \<Longrightarrow>
   fold step_jump cs rs = filter (\<lambda>r. r \<notin> Jump ` set cs) rs @ map Jump cs"
proof (induction cs arbitrary: rs)
  case Nil
  then show ?case by simp
next
  case (Cons c cs)
  have s: "step_jump c rs = filter (\<lambda>r. r \<noteq> Jump c) rs @ [Jump c]"
    using Cons.prems by (simp add: step_jump_def remove1_as_filter)
  have le: "\<forall>c'\<in>set cs. count_list (step_jump c rs) (Jump c') \<le> 1"
  proof
    fix c' assume c': "c' \<in> set cs"
    then have "c' \<noteq> c" using Cons.prems(1) by auto
    moreover have "count_list (filter (\<lambda>r. r \<noteq> Jump c) rs) (Jump c') \<le> count_list rs (Jump c')"
      by (rule count_list_filter_le)
    ultimately show "count_list (step_jump c rs) (Jump c') \<le> 1"
      using Cons.prems(2) c' by (auto simp: s)
  qed
  have d: "distinct cs" and n: "c \<notin> set cs" using Cons.prems(1) by auto
  have "fold step_jump (c # cs) rs = fold step_jump cs (step_jump c rs)" by simp
  also have "\<dots> = filter (\<lambda>r. r \<notin> Jump ` set cs) (step_jump c rs) @ map Jump cs"
    by (rule Cons.IH[OF d le])
  also have "\<dots> = filter (\<lambda>r. r \<notin> Jump ` set (c # cs)) rs @ map Jump (c # cs)"
    using n by (auto simp: s intro: filter_cong)
  finally show ?case .
qed

lemma count_list_distinct: "distinct xs \<Longrightarrow> x \<in> set xs \<Longrightarrow> count_list xs x = 1"
  by (induction xs) auto

lemma fold_step_jump_once:
  assumes "distinct cs" "\<forall>c\<in>set cs. count_list rs (Jump c) \<le> 1" "c \<in> set cs"
  shows "count_list (fold step_jump cs rs) (Jump c) = 1"
proof -
  have "Jump c \<notin> set (filter (\<lambda>r. r \<notin> Jump ` set cs) rs)" using assms(3) by auto
  then have "count_list (filter (\<lambda>r. r \<notin> Jump ` set cs) rs) (Jump c) = 0" by simp
  moreover have "count_list (map Jump cs) (Jump c) = 1"
    using assms(1,3) by (intro count_list_distinct) (auto simp: distinct_map inj_on_def)
  ultimately show ?thesis
    by (simp add: fold_step_jump_closed[OF assms(1,2)])
qed

lemma fold_step_jump_idem:
  assumes "distinct cs" "\<forall>c\<in>set cs. count_list rs (Jump c) \<le> 1"
  shows "fold step_jump cs (fold step_jump cs rs) = fold step_jump cs rs"
proof -
  have le: "\<forall>c\<in>set cs. count_list (fold step_jump cs rs) (Jump c) \<le> 1"
    using fold_step_jump_once[OF assms] by simp
  have "fold step_jump cs (fold step_jump cs rs) =
        filter (\<lambda>r. r \<notin> Jump ` set cs) (fold step_jump cs rs) @ map Jump cs"
    by (rule fold_step_jump_closed[OF assms(1) le])
  also have "\<dots> = filter (\<lambda>r. r \<notin> Jump ` set cs) rs @ map Jump cs"
    by (auto simp: fold_step_jump_closed[OF assms] filter_empty_conv)
  finally show ?thesis by (simp add: fold_step_jump_closed[OF assms])
qed

section \<open>The eight calls are the topology\<close>

text \<open>
  The eight installer calls of \<open>initIptablesRules\<close> are the installation of the entries of
  \<open>topology\<close>, each by its strategy, and the rule state follows the effect of the entries.
\<close>

lemma chains_as_topology:
  "initIptablesRules_chains e n r =
     andThen (install_entries e (topology n) r)
       (\<lambda>r'. Inr (logTime e ''Creating child chains: %.1fms'' r'))"
  by (simp add: initIptablesRules_chains_def topology_def install_entry_def
        FILTER_INPUT_def FILTER_FORWARD_def FILTER_OUTPUT_def RAW_PREROUTING_def
        MANGLE_POSTROUTING_def MANGLE_FORWARD_def NAT_PREROUTING_def NAT_POSTROUTING_def
        andThen_def split: sum.splits)

lemma topology_ok:
  "names_ok n \<Longrightarrow> \<forall>x\<in>set (topology n). entry_ok x"
  by (simp add: names_ok_def topology_def entry_ok_def wf_name_def is_builtin_def)

lemma topology_keys:
  "distinct (map (\<lambda>x. (e_table x, e_parent x)) (topology n))"
  by (simp add: topology_def)

lemma entry_update_present:
  "v fam t x \<noteq> None \<Longrightarrow> entry_update g target table parent cs v fam t x \<noteq> None"
  by (auto simp: entry_update_def)

lemma world_logTime: "world (logTime netfilter_env fmt r) = world r"
  by (simp add: logTime_def netfilter_env_def world_invoke)

lemma install_entry_semantics:
  assumes "entry_ok x" "\<forall>fam\<in>set (families (e_target x)). rules_of (world r) fam (e_table x) (e_parent x) \<noteq> None"
  shows "\<exists>r'. install_entry netfilter_env x r = Inr r'
            \<and> rules_of (world r') = entry_effect x (rules_of (world r))"
proof (cases "e_strategy x")
  case Safe
  have "e_parent x \<notin> set (e_children x)" using assms(1) by (auto simp: entry_ok_def)
  with safe_semantics[of "e_children x" "e_parent x" "e_target x" "e_table x" r] assms(1) Safe
  show ?thesis
    by (simp add: install_entry_def entry_effect_def rewrite_of_def entry_ok_def)
next
  case Fast
  have "e_parent x \<notin> set (e_children x)" using assms(1) by (auto simp: entry_ok_def)
  with fast_semantics[of "e_children x" "e_table x" "e_parent x" "e_target x" r] assms Fast
  show ?thesis
    by (simp add: install_entry_def entry_effect_def rewrite_of_def entry_ok_def)
qed

lemma hooks_present_effect:
  "hooks_present es v \<Longrightarrow> hooks_present es (entry_effect x v)"
  by (simp add: hooks_present_def entry_effect_def entry_update_present)

lemma hooks_present_fold:
  "hooks_present es v \<Longrightarrow> hooks_present es (fold entry_effect xs v)"
  by (induction xs arbitrary: v) (simp_all add: hooks_present_effect)

lemma install_entries_semantics:
  assumes "\<forall>x\<in>set es. entry_ok x" "hooks_present es (rules_of (world r))"
  shows "\<exists>r'. install_entries netfilter_env es r = Inr r'
            \<and> rules_of (world r') = fold entry_effect es (rules_of (world r))"
  using assms
proof (induction es arbitrary: r)
  case Nil
  then show ?case by simp
next
  case (Cons x es)
  have "\<forall>fam\<in>set (families (e_target x)). rules_of (world r) fam (e_table x) (e_parent x) \<noteq> None"
    using Cons.prems(2) by (simp add: hooks_present_def)
  with install_entry_semantics[of x r] Cons.prems(1)
  obtain r1 where r1: "install_entry netfilter_env x r = Inr r1"
    "rules_of (world r1) = entry_effect x (rules_of (world r))" by auto
  have "hooks_present es (rules_of (world r))" using Cons.prems(2) by (simp add: hooks_present_def)
  then have "hooks_present es (rules_of (world r1))"
    by (simp add: r1(2) hooks_present_effect)
  with Cons.IH[of r1] Cons.prems(1)
  obtain r' where "install_entries netfilter_env es r1 = Inr r'"
    "rules_of (world r') = fold entry_effect es (rules_of (world r1))" by auto
  then show ?case by (simp add: r1 andThen_def)
qed

lemma installed_view:
  assumes "names_ok n" "hooks_present (topology n) (rules_of nf)"
  shows "\<exists>nf'. installed n nf = Some nf'
           \<and> rules_of nf' = fold entry_effect (topology n) (rules_of nf)"
proof -
  from install_entries_semantics[of "topology n" "\<lparr>world = nf, trace = []\<rparr>"]
    topology_ok[OF assms(1)] assms(2)
  obtain r' where "install_entries netfilter_env (topology n) \<lparr>world = nf, trace = []\<rparr> = Inr r'"
    "rules_of (world r') = fold entry_effect (topology n) (rules_of nf)" by auto
  then show ?thesis
    by (simp add: installed_def chains_as_topology andThen_def world_logTime)
qed

section \<open>Installing a list of entries\<close>

text \<open>
  For entries with distinct parent chains none of which is a child: a parent chain is
  rewritten by its own entry only, a child chain ends empty, any other chain is untouched.
\<close>

lemma entry_effect_apply:
  "entry_effect x v fam t c =
     (if applies x fam t then
        (if c = e_parent x then map_option (rewrite_of x) (v fam t c)
         else if c \<in> set (e_children x) then Some [] else v fam t c)
      else v fam t c)"
  by (simp add: entry_effect_def entry_update_def applies_def)

lemma fold_effect_untouched:
  "(\<forall>x\<in>set es. applies x fam t \<longrightarrow> c \<noteq> e_parent x \<and> c \<notin> set (e_children x)) \<Longrightarrow>
   fold entry_effect es v fam t c = v fam t c"
  by (induction es arbitrary: v) (simp_all add: entry_effect_apply)

lemma fold_effect_parent:
  assumes "distinct (map (\<lambda>x. (e_table x, e_parent x)) es)" "x \<in> set es" "applies x fam t"
    "\<forall>y\<in>set es. e_parent x \<notin> set (e_children y)"
  shows "fold entry_effect es v fam t (e_parent x) =
           map_option (rewrite_of x) (v fam t (e_parent x))"
  using assms
proof (induction es arbitrary: v)
  case Nil
  then show ?case by simp
next
  case (Cons y es)
  show ?case
  proof (cases "x = y")
    case True
    have "\<forall>z\<in>set es. applies z fam t \<longrightarrow> e_parent x \<noteq> e_parent z \<and> e_parent x \<notin> set (e_children z)"
    proof (intro ballI impI)
      fix z assume z: "z \<in> set es" "applies z fam t"
      have "(e_table z, e_parent z) \<noteq> (e_table y, e_parent y)"
        using Cons.prems(1) z(1) by (force simp: image_iff)
      moreover have "e_table z = e_table y"
        using z(2) Cons.prems(3) True by (simp add: applies_def)
      ultimately show "e_parent x \<noteq> e_parent z \<and> e_parent x \<notin> set (e_children z)"
        using Cons.prems(4) z(1) True by auto
    qed
    then have "fold entry_effect es (entry_effect y v) fam t (e_parent x) =
               entry_effect y v fam t (e_parent x)"
      by (rule fold_effect_untouched)
    moreover have "entry_effect y v fam t (e_parent x) =
               map_option (rewrite_of x) (v fam t (e_parent x))"
      using True Cons.prems(3) by (simp add: entry_effect_apply)
    ultimately show ?thesis by simp
  next
    case False
    then have xin: "x \<in> set es" using Cons.prems(2) by simp
    have d: "distinct (map (\<lambda>x. (e_table x, e_parent x)) es)" using Cons.prems(1) by simp
    have nc: "\<forall>y\<in>set es. e_parent x \<notin> set (e_children y)" using Cons.prems(4) by simp
    have ne: "applies y fam t \<Longrightarrow> e_parent x \<noteq> e_parent y"
    proof
      assume a: "applies y fam t" "e_parent x = e_parent y"
      then have "(e_table x, e_parent x) = (e_table y, e_parent y)"
        using Cons.prems(3) by (simp add: applies_def)
      then show False using Cons.prems(1) xin by (force simp: image_iff)
    qed
    have "entry_effect y v fam t (e_parent x) = v fam t (e_parent x)"
      using ne Cons.prems(4) by (auto simp: entry_effect_apply)
    then show ?thesis
      using Cons.IH[OF d xin Cons.prems(3) nc, of "entry_effect y v"] by simp
  qed
qed

lemma fold_effect_child:
  assumes "v fam t c = Some [] \<or> (\<exists>x\<in>set es. applies x fam t \<and> c \<in> set (e_children x))"
    "\<forall>x\<in>set es. applies x fam t \<longrightarrow> c \<noteq> e_parent x"
  shows "fold entry_effect es v fam t c = Some []"
  using assms
proof (induction es arbitrary: v)
  case Nil
  then show ?case by simp
next
  case (Cons y es)
  have "entry_effect y v fam t c = Some [] \<or> (\<exists>x\<in>set es. applies x fam t \<and> c \<in> set (e_children x))"
    using Cons.prems by (auto simp: entry_effect_apply)
  then show ?case using Cons.IH[of "entry_effect y v"] Cons.prems(2) by simp
qed

lemma entries_ok_parent_child:
  "entries_ok es \<Longrightarrow> x \<in> set es \<Longrightarrow> y \<in> set es \<Longrightarrow> e_parent x \<notin> set (e_children y)"
  by (auto simp: entries_ok_def entry_ok_def)

lemma rewrite_of_idem:
  assumes "entry_ok x" "e_strategy x = Safe \<longrightarrow> (\<forall>c\<in>set (e_children x). count_list rs (Jump c) \<le> 1)"
  shows "rewrite_of x (rewrite_of x rs) = rewrite_of x rs"
  using assms
  by (cases "e_strategy x") (simp_all add: rewrite_of_def entry_ok_def fold_step_jump_idem)

lemma rewrite_of_once:
  assumes "entry_ok x" "e_strategy x = Safe \<longrightarrow> (\<forall>c\<in>set (e_children x). count_list rs (Jump c) \<le> 1)"
    "c \<in> set (e_children x)"
  shows "count_list (rewrite_of x rs) (Jump c) = 1"
proof (cases "e_strategy x")
  case Safe
  then show ?thesis
    using assms by (simp add: rewrite_of_def entry_ok_def fold_step_jump_once)
next
  case Fast
  have "count_list (map Jump (e_children x)) (Jump c) = 1"
    using assms(1,3) by (intro count_list_distinct) (auto simp: distinct_map inj_on_def entry_ok_def)
  then show ?thesis using Fast by (simp add: rewrite_of_def)
qed

lemma no_duplicate_jumpsD:
  assumes "no_duplicate_jumps es v" "x \<in> set es" "fam \<in> set (families (e_target x))"
    "v fam (e_table x) (e_parent x) = Some rs"
  shows "e_strategy x = Safe \<longrightarrow> (\<forall>c\<in>set (e_children x). count_list rs (Jump c) \<le> 1)"
proof (intro impI ballI)
  fix c assume "e_strategy x = Safe" "c \<in> set (e_children x)"
  with assms(1,2,3) have "case v fam (e_table x) (e_parent x) of None \<Rightarrow> True
         | Some rs \<Rightarrow> count_list rs (Jump c) \<le> 1"
    unfolding no_duplicate_jumps_def by blast
  then show "count_list rs (Jump c) \<le> 1" by (simp add: assms(4))
qed

lemma fold_effect_idem:
  assumes ok: "entries_ok es" and hp: "hooks_present es v" and nd: "no_duplicate_jumps es v"
  shows "fold entry_effect es (fold entry_effect es v) = fold entry_effect es v"
proof (intro ext)
  fix fam t c
  let ?T = "fold entry_effect es"
  have d: "distinct (map (\<lambda>x. (e_table x, e_parent x)) es)" using ok by (simp add: entries_ok_def)
  show "?T (?T v) fam t c = ?T v fam t c"
  proof (cases "\<exists>x\<in>set es. applies x fam t \<and> c = e_parent x")
    case True
    then obtain x where x: "x \<in> set es" "applies x fam t" "c = e_parent x" by blast
    have nc: "\<forall>y\<in>set es. e_parent x \<notin> set (e_children y)"
      using entries_ok_parent_child[OF ok x(1)] by blast
    have p: "?T w fam t c = map_option (rewrite_of x) (w fam t c)" for w
      using fold_effect_parent[OF d x(1,2) nc, of w] x(3) by simp
    obtain rs where rs: "v fam t c = Some rs"
      using hp x by (auto simp: hooks_present_def applies_def)
    have "e_strategy x = Safe \<longrightarrow> (\<forall>c'\<in>set (e_children x). count_list rs (Jump c') \<le> 1)"
      using no_duplicate_jumpsD[OF nd x(1), of fam rs] x(2,3) rs by (simp add: applies_def)
    moreover have "entry_ok x" using ok x(1) by (simp add: entries_ok_def)
    ultimately have "rewrite_of x (rewrite_of x rs) = rewrite_of x rs"
      by (rule rewrite_of_idem[rotated])
    then show ?thesis by (simp add: p rs)
  next
    case np: False
    show ?thesis
    proof (cases "\<exists>x\<in>set es. applies x fam t \<and> c \<in> set (e_children x)")
      case True
      have "?T w fam t c = Some []" for w
        using fold_effect_child[of w fam t c es] True np by blast
      then show ?thesis by simp
    next
      case False
      have "?T w fam t c = w fam t c" for w
        using fold_effect_untouched[of es fam t c w] False np by blast
      then show ?thesis by simp
    qed
  qed
qed

lemma fold_effect_once:
  assumes ok: "entries_ok es" and hp: "hooks_present es v" and nd: "no_duplicate_jumps es v"
    and x: "x \<in> set es" "fam \<in> set (families (e_target x))"
  shows "\<exists>rs. fold entry_effect es v fam (e_table x) (e_parent x) = Some rs
            \<and> (\<forall>c\<in>set (e_children x). count_list rs (Jump c) = 1)"
proof -
  have d: "distinct (map (\<lambda>x. (e_table x, e_parent x)) es)" using ok by (simp add: entries_ok_def)
  have a: "applies x fam (e_table x)" using x(2) by (simp add: applies_def)
  have nc: "\<forall>y\<in>set es. e_parent x \<notin> set (e_children y)"
    using entries_ok_parent_child[OF ok x(1)] by blast
  obtain rs where rs: "v fam (e_table x) (e_parent x) = Some rs"
    using hp x by (auto simp: hooks_present_def)
  have le: "e_strategy x = Safe \<longrightarrow> (\<forall>c'\<in>set (e_children x). count_list rs (Jump c') \<le> 1)"
    by (rule no_duplicate_jumpsD[OF nd x rs])
  have e: "entry_ok x" using ok x(1) by (simp add: entries_ok_def)
  have "fold entry_effect es v fam (e_table x) (e_parent x) = Some (rewrite_of x rs)"
    using fold_effect_parent[OF d x(1) a nc, of v] rs by simp
  then show ?thesis
    using rewrite_of_once[OF e le] by simp
qed

lemma topology_entries_ok: "names_ok n \<Longrightarrow> entries_ok (topology n)"
  by (simp add: entries_ok_def topology_keys topology_ok)

section \<open>The actions of initIptablesRules and init\<close>

text \<open>The calls made do not depend on what any call returns.\<close>

lemma trace_install_entry:
  assumes "e_children x \<noteq> []"
  shows "\<exists>r'. install_entry e x r = Inr r' \<and> trace r' = trace r @ entry_calls x"
proof (cases "e_strategy x")
  case Safe
  then show ?thesis
    using assms
    by (simp add: install_entry_def entry_calls_def createChildChains_fold trace_fold_body)
next
  case Fast
  then show ?thesis
    using assms
    by (simp add: install_entry_def entry_calls_def createChildChainsFast_script
          execIptablesRestore_def trace_invoke)
qed

lemma trace_install_entries:
  assumes "\<forall>x\<in>set es. e_children x \<noteq> []"
  shows "\<exists>r'. install_entries e es r = Inr r' \<and> trace r' = trace r @ concat (map entry_calls es)"
  using assms
proof (induction es arbitrary: r)
  case Nil
  then show ?case by simp
next
  case (Cons x es)
  then obtain r1 where r1: "install_entry e x r = Inr r1" "trace r1 = trace r @ entry_calls x"
    using trace_install_entry[of x e r] by auto
  obtain r2 where "install_entries e es r1 = Inr r2" "trace r2 = trace r1 @ concat (map entry_calls es)"
    using Cons.IH[of r1] Cons.prems by auto
  then show ?case by (simp add: r1 andThen_def)
qed

lemma topology_children: "\<forall>x\<in>set (topology n). e_children x \<noteq> []"
  by (simp add: topology_def)

lemma entry_calls_actions: "filter (\<lambda>c. \<not> is_log c) (entry_calls x) = entry_calls x"
  by (cases "e_strategy x") (auto simp: entry_calls_def safe_calls_def filter_id_conv)

lemma actions_invoke:
  "actions (snd (invoke e c r)) = actions r @ (if is_log c then [] else [c])"
  by (simp add: actions_def trace_invoke)

lemma actions_logTime: "actions (logTime e fmt r) = actions r"
  by (simp add: actions_def trace_logTime)

lemma chains_actions:
  "\<exists>r'. initIptablesRules_chains e n r = Inr r'
     \<and> actions r' = actions r @ concat (map entry_calls (topology n))"
proof -
  obtain r1 where r1: "install_entries e (topology n) r = Inr r1"
    "trace r1 = trace r @ concat (map entry_calls (topology n))"
    using trace_install_entries[OF topology_children] by blast
  have "filter (\<lambda>c. \<not> is_log c) (concat (map entry_calls es)) = concat (map entry_calls es)" for es :: "entry list"
    by (induction es) (simp_all add: entry_calls_actions)
  then have "actions r1 = actions r @ concat (map entry_calls (topology n))"
    by (simp add: actions_def r1(2))
  then show ?thesis
    by (simp add: chains_as_topology r1(1) andThen_def actions_logTime)
qed

lemma hooks_actions: "actions (initIptablesRules_hooks e r) = actions r @ hook_calls"
  by (simp add: initIptablesRules_hooks_def actions_invoke actions_logTime hook_calls_def)

lemma initIptablesRules_actions:
  "\<exists>r'. initIptablesRules e n r = Inr r'
     \<and> actions r' = actions r @ concat (map entry_calls (topology n)) @ hook_calls"
  using chains_actions[of e n r]
  by (auto simp: initIptablesRules_def andThen_def hooks_actions)

lemma init_actions:
  "\<exists>r'. init e n r = Inr r'
     \<and> actions r' = actions r @ concat (map entry_calls (topology n)) @ hook_calls
          @ [EnableBandwidthControl False, RouteControllerInit (NetworkController_LOCAL_NET_ID n)]"
  using initIptablesRules_actions[of e n r]
  by (auto simp: init_def andThen_def actions_invoke actions_logTime Let_def split_beta)

lemma actions_start: "actions start = []"
  by (simp add: actions_def start_def)

lemma no_duplicate_jumps_installed:
  assumes "entries_ok es" "hooks_present es v" "no_duplicate_jumps es v"
  shows "no_duplicate_jumps es (fold entry_effect es v)"
  unfolding no_duplicate_jumps_def
proof (intro ballI impI)
  fix x fam c
  assume x: "x \<in> set es" "fam \<in> set (families (e_target x))" "c \<in> set (e_children x)"
  obtain rs where "fold entry_effect es v fam (e_table x) (e_parent x) = Some rs"
    "\<forall>c\<in>set (e_children x). count_list rs (Jump c) = 1"
    using fold_effect_once[OF assms x(1,2)] by blast
  then show "case fold entry_effect es v fam (e_table x) (e_parent x) of
               None \<Rightarrow> True | Some rs \<Rightarrow> count_list rs (Jump c) \<le> 1"
    using x(3) by simp
qed

section \<open>The two strategies on concrete rule states\<close>

text \<open>
  The fast strategy replaces the content of the parent chain: a rule that was in filter
  INPUT before the transaction is gone after it.
\<close>

lemma fast_strategy_example:
  "map_option (\<lambda>st. st ''filter'')
     (iptables_restore (fast_script ''filter'' ''INPUT'' [''bw_INPUT'', ''fw_INPUT''])
        (\<lambda>table. [(''INPUT'', [Foreign ''vendor'']), (''OUTPUT'', [])])) =
   Some [(''INPUT'', [Jump ''bw_INPUT'', Jump ''fw_INPUT'']), (''OUTPUT'', []),
         (''bw_INPUT'', []), (''fw_INPUT'', [])]"
  by (simp add: fast_script_def child_lines_def iptables_restore_def restore_line_def
        rule_command_def reset_chain_def flush_chain_def append_jump_def is_builtin_def)

text \<open>The safe strategy keeps the vendor rule of filter OUTPUT and appends the jumps after it.\<close>

lemma safe_strategy_example:
  "\<exists>r'. createChildChains netfilter_env V4V6 ''filter'' ''OUTPUT''
          [Some ''oem_out'', Some ''fw_OUTPUT'', None] \<lparr>world = boot_state, trace = []\<rparr> = Inr r'
       \<and> world r' IPv6 ''filter'' =
           [(''INPUT'', []), (''FORWARD'', []),
            (''OUTPUT'', [Foreign ''vendor'', Jump ''oem_out'', Jump ''fw_OUTPUT'']),
            (''PREROUTING'', []), (''POSTROUTING'', []), (''oem_out'', []), (''fw_OUTPUT'', [])]"
  using createChildChains_fold[of "[''oem_out'', ''fw_OUTPUT'']" netfilter_env V4V6
      "''filter''" "''OUTPUT''" "\<lparr>world = boot_state, trace = []\<rparr>"]
  by (simp add: createChildChains_body_def execIptables_def execIptablesSilently_def va_args_def
        invoke_def netfilter_env_def iptables_command_def rule_command_def boot_state_def
        delete_jump_def flush_chain_def delete_chain_def new_chain_def append_jump_def
        referenced_def is_builtin_def)

text \<open>
  The safe strategy deletes one jump and appends one: where the parent chain held the
  jump twice before, it holds it twice afterwards.
\<close>

lemma duplicate_jump_survives:
  "\<exists>r'. createChildChains netfilter_env V4V6 ''filter'' ''OUTPUT'' [Some ''oem_out'', None]
          \<lparr>world = duplicated, trace = []\<rparr> = Inr r'
       \<and> world r' IPv4 ''filter'' =
           [(''INPUT'', []), (''FORWARD'', []),
            (''OUTPUT'', [Jump ''oem_out'', Jump ''oem_out'']),
            (''PREROUTING'', []), (''POSTROUTING'', []), (''oem_out'', [])]"
  using createChildChains_fold[of "[''oem_out'']" netfilter_env V4V6 "''filter''" "''OUTPUT''"
      "\<lparr>world = duplicated, trace = []\<rparr>"]
  by (simp add: createChildChains_body_def execIptables_def execIptablesSilently_def va_args_def
        invoke_def netfilter_env_def iptables_command_def rule_command_def duplicated_def
        delete_jump_def flush_chain_def delete_chain_def new_chain_def append_jump_def
        referenced_def is_builtin_def)

section \<open>The claims\<close>

text \<open>
  C1, as amended. The claim is that a failing create-chain or append-jump invocation
  aborts the installation of its entry, reaches the caller as an error and keeps the
  orchestrator from registering the module hooks. The source drops every exit status:
  both installers and \<open>initIptablesRules\<close> return nothing, and no call is tested. What
  holds instead: in every environment, so whatever status any invocation returns,
  \<open>initIptablesRules\<close> returns normally after all the invocations of all eight entries,
  followed by the five hook registrations.
\<close>

theorem exit_statuses_ignored:
  "\<exists>r'. initIptablesRules e n r = Inr r'
     \<and> actions r' = actions r @ concat (map entry_calls (topology n)) @ hook_calls"
  by (rule initIptablesRules_actions)

text \<open>
  C1, the claim as stated fails: where every invocation exits with status 1, the failed
  creation of the first child chain of filter OUTPUT is followed by the append of its jump
  rule, by the installation of the next child and by the first hook registration.
\<close>

theorem failed_create_reaches_hooks:
  "fst (perform failing_env (ExecIptables V4V6 [''-t'', ''filter'', ''-N'', ''oem_out'']) ()) \<noteq> 0
   \<and> performed
        [ExecIptables V4V6 [''-t'', ''filter'', ''-N'', ''oem_out''],
         ExecIptables V4V6 [''-t'', ''filter'', ''-A'', ''OUTPUT'', ''-j'', ''oem_out''],
         ExecIptablesSilently V4V6 [''-t'', ''filter'', ''-D'', ''OUTPUT'', ''-j'', ''fw_OUTPUT''],
         SetupOemIptablesHook]
        (initIptablesRules failing_env sample_names start)"
proof -
  obtain r' where r': "initIptablesRules failing_env sample_names start = Inr r'"
    "actions r' = actions start @ concat (map entry_calls (topology sample_names)) @ hook_calls"
    using initIptablesRules_actions[of failing_env sample_names start] by blast
  have "fst (perform failing_env (ExecIptables V4V6 [''-t'', ''filter'', ''-N'', ''oem_out'']) ()) \<noteq> 0"
    by (simp add: failing_env_def)
  then show ?thesis
    unfolding performed_def r' sum.case
    by (simp add: actions_start topology_def sample_names_def entry_calls_def safe_calls_def
          hook_calls_def)
qed

text \<open>
  C2. On a non-empty child list in a NULL-terminated array, the fast installer makes one
  call, the rule transaction, and its script is: the table selector line, the reset line
  of the parent chain, the flush line of the parent chain, for each child in order its
  reset line and the append of the jump from the parent, and the COMMIT line (which the
  source follows with one empty line).
\<close>

theorem fast_installer_one_transaction:
  assumes "children \<noteq> []"
  shows "\<exists>r'. createChildChainsFast e target table parent (map Some children @ [None]) r = Inr r'
           \<and> trace r' = trace r @
               [ExecIptablesRestore target
                  (''*'' @ table @ ''\<newline>'' @
                   '':'' @ parent @ '' -\<newline>'' @
                   ''-F '' @ parent @ ''\<newline>'' @
                   concat (map (\<lambda>child. '':'' @ child @ '' -\<newline>'' @
                                  ''-A '' @ parent @ '' -j '' @ child @ ''\<newline>'') children) @
                   ''COMMIT\<newline>\<newline>'')]"
  using createChildChainsFast_script[OF assms, of e target table parent r]
  by (simp add: execIptablesRestore_def trace_invoke fast_script_def child_lines_def[abs_def])

theorem fast_installer_one_transaction_witness:
  "[''bw_INPUT'', ''fw_INPUT''] \<noteq> []
   \<and> (\<exists>r'. createChildChainsFast quiet_env V4V6 ''filter'' ''INPUT''
              [Some ''bw_INPUT'', Some ''fw_INPUT'', None] start = Inr r'
         \<and> trace r' =
             [ExecIptablesRestore V4V6
                ''*filter\<newline>:INPUT -\<newline>-F INPUT\<newline>:bw_INPUT -\<newline>-A INPUT -j bw_INPUT\<newline>:fw_INPUT -\<newline>-A INPUT -j fw_INPUT\<newline>COMMIT\<newline>\<newline>''])"
  using fast_installer_one_transaction[of "[''bw_INPUT'', ''fw_INPUT'']" quiet_env V4V6
      "''filter''" "''INPUT''" start]
  by (simp add: start_def)

text \<open>
  C3, as amended. Spec-modelled rule state. The claim puts no condition on the state the
  first run starts from. The safe strategy deletes one jump and appends one, so the result
  needs one: take names that are distinct within each entry, can stand in a script and
  are not names of hook chains, and a rule state in which the eight parent chains exist
  and no parent chain of a safe entry holds a jump to one of its children twice (the state
  after boot is one). Then the eight installer calls succeed; the state they leave
  satisfies the same conditions; running them again from that state leaves every chain of
  every table with the same rules; and in it every parent chain holds exactly one jump to
  each of its declared children.
\<close>

theorem installation_idempotent:
  assumes "names_ok n" "hooks_present (topology n) (rules_of nf0)"
    "no_duplicate_jumps (topology n) (rules_of nf0)"
  shows "\<exists>nf1 nf2. installed n nf0 = Some nf1 \<and> installed n nf1 = Some nf2
           \<and> hooks_present (topology n) (rules_of nf1)
           \<and> no_duplicate_jumps (topology n) (rules_of nf1)
           \<and> rules_of nf2 = rules_of nf1
           \<and> (\<forall>x\<in>set (topology n). \<forall>fam\<in>set (families (e_target x)).
                \<exists>rs. rules_of nf2 fam (e_table x) (e_parent x) = Some rs
                   \<and> (\<forall>c\<in>set (e_children x). count_list rs (Jump c) = 1))"
proof -
  let ?T = "fold entry_effect (topology n)"
  obtain nf1 where nf1: "installed n nf0 = Some nf1" "rules_of nf1 = ?T (rules_of nf0)"
    using installed_view[OF assms(1,2)] by blast
  have hp1: "hooks_present (topology n) (rules_of nf1)"
    by (simp add: nf1(2) hooks_present_fold assms(2))
  obtain nf2 where nf2: "installed n nf1 = Some nf2" "rules_of nf2 = ?T (rules_of nf1)"
    using installed_view[OF assms(1) hp1] by blast
  have ok: "entries_ok (topology n)" by (rule topology_entries_ok[OF assms(1)])
  have nd1: "no_duplicate_jumps (topology n) (rules_of nf1)"
    by (simp add: nf1(2) no_duplicate_jumps_installed[OF ok assms(2,3)])
  have eq: "rules_of nf2 = rules_of nf1"
    by (simp add: nf2(2) nf1(2) fold_effect_idem[OF ok assms(2,3)])
  have "\<forall>x\<in>set (topology n). \<forall>fam\<in>set (families (e_target x)).
                \<exists>rs. rules_of nf2 fam (e_table x) (e_parent x) = Some rs
                   \<and> (\<forall>c\<in>set (e_children x). count_list rs (Jump c) = 1)"
    using fold_effect_once[OF ok assms(2,3)] by (simp add: eq nf1(2))
  then show ?thesis using nf1(1) nf2(1) eq hp1 nd1 by blast
qed

theorem installation_idempotent_witness:
  "names_ok sample_names \<and> hooks_present (topology sample_names) (rules_of boot_state)
   \<and> no_duplicate_jumps (topology sample_names) (rules_of boot_state)
   \<and> (\<exists>nf1 nf2. installed sample_names boot_state = Some nf1
           \<and> installed sample_names nf1 = Some nf2
           \<and> hooks_present (topology sample_names) (rules_of nf1)
           \<and> no_duplicate_jumps (topology sample_names) (rules_of nf1)
           \<and> rules_of nf2 = rules_of nf1
           \<and> (\<forall>x\<in>set (topology sample_names). \<forall>fam\<in>set (families (e_target x)).
                \<exists>rs. rules_of nf2 fam (e_table x) (e_parent x) = Some rs
                   \<and> (\<forall>c\<in>set (e_children x). count_list rs (Jump c) = 1)))"
proof -
  have h1: "names_ok sample_names"
    by (simp add: names_ok_def topology_def sample_names_def wf_name_def is_builtin_def)
  have h2: "hooks_present (topology sample_names) (rules_of boot_state)"
    by (simp add: hooks_present_def topology_def rules_of_def boot_state_def)
  have h3: "no_duplicate_jumps (topology sample_names) (rules_of boot_state)"
    by (simp add: no_duplicate_jumps_def topology_def rules_of_def boot_state_def sample_names_def)
  show ?thesis
    using h1 h2 h3 installation_idempotent[OF h1 h2 h3] by blast
qed

lemma output_entry:
  "\<lparr>e_strategy = Safe, e_target = V4V6, e_table = ''filter'', e_parent = ''OUTPUT'',
        e_children = [OEM_IPTABLES_FILTER_OUTPUT n, FirewallController_LOCAL_OUTPUT n,
          StrictController_LOCAL_OUTPUT n, BandwidthController_LOCAL_OUTPUT n]\<rparr> \<in> set (topology n)"
  by (simp add: topology_def)

text \<open>
  C3, the claim as stated fails: from a state in which filter OUTPUT of IPv4 already holds
  the jump to \<open>oem_out\<close> twice, with names and parent chains as required, filter OUTPUT
  holds that jump twice after one run of the eight installer calls and twice after two.
\<close>

theorem duplicated_jump_stays_duplicated:
  "names_ok sample_names
   \<and> hooks_present (topology sample_names) (rules_of duplicated)
   \<and> jumps_after (installed sample_names duplicated) IPv4 ''filter'' ''OUTPUT'' ''oem_out'' = Some 2
   \<and> jumps_after (installed_twice sample_names duplicated) IPv4 ''filter'' ''OUTPUT'' ''oem_out'' = Some 2"
proof -
  let ?T = "fold entry_effect (topology sample_names)"
  let ?x = "\<lparr>e_strategy = Safe, e_target = V4V6, e_table = ''filter'', e_parent = ''OUTPUT'',
        e_children = [OEM_IPTABLES_FILTER_OUTPUT sample_names, FirewallController_LOCAL_OUTPUT sample_names,
          StrictController_LOCAL_OUTPUT sample_names, BandwidthController_LOCAL_OUTPUT sample_names]\<rparr>"
  have h1: "names_ok sample_names"
    by (simp add: names_ok_def topology_def sample_names_def wf_name_def is_builtin_def)
  have h2: "hooks_present (topology sample_names) (rules_of duplicated)"
    by (simp add: hooks_present_def topology_def rules_of_def duplicated_def)
  obtain nf1 where nf1: "installed sample_names duplicated = Some nf1"
    "rules_of nf1 = ?T (rules_of duplicated)"
    using installed_view[OF h1 h2] by blast
  have hp1: "hooks_present (topology sample_names) (rules_of nf1)"
    by (simp add: nf1(2) hooks_present_fold h2)
  obtain nf2 where nf2: "installed sample_names nf1 = Some nf2" "rules_of nf2 = ?T (rules_of nf1)"
    using installed_view[OF h1 hp1] by blast
  have ok: "entries_ok (topology sample_names)" by (rule topology_entries_ok[OF h1])
  have d: "distinct (map (\<lambda>x. (e_table x, e_parent x)) (topology sample_names))"
    by (rule topology_keys)
  have nc: "\<forall>y\<in>set (topology sample_names). e_parent ?x \<notin> set (e_children y)"
    using entries_ok_parent_child[OF ok output_entry] by blast
  have a: "applies ?x IPv4 ''filter''" by (simp add: applies_def)
  have p: "?T v IPv4 ''filter'' ''OUTPUT'' = map_option (rewrite_of ?x) (v IPv4 ''filter'' ''OUTPUT'')" for v
    using fold_effect_parent[OF d output_entry a nc, of v] by simp
  have r0: "rules_of duplicated IPv4 ''filter'' ''OUTPUT'' = Some [Jump ''oem_out'', Jump ''oem_out'']"
    by (simp add: rules_of_def duplicated_def)
  let ?once = "[Jump ''oem_out'', Jump ''oem_out'', Jump ''fw_OUTPUT'', Jump ''st_OUTPUT'', Jump ''bw_OUTPUT'']"
  have e1: "rewrite_of ?x [Jump ''oem_out'', Jump ''oem_out''] = ?once"
    by (simp add: rewrite_of_def step_jump_def sample_names_def)
  have e2: "rewrite_of ?x ?once = ?once"
    by (simp add: rewrite_of_def step_jump_def sample_names_def)
  have r1: "rules_of nf1 IPv4 ''filter'' ''OUTPUT'' = Some ?once"
    by (simp only: nf1(2) p r0 option.map e1)
  have r2: "rules_of nf2 IPv4 ''filter'' ''OUTPUT'' = Some ?once"
    by (simp only: nf2(2) p r1 option.map e2)
  show ?thesis
    using h1 h2 by (simp add: jumps_after_def installed_twice_def nf1(1) nf2(1) r1 r2)
qed

text \<open>
  C4. On a non-empty child list in a NULL-terminated array, the safe installer makes, for
  each child in order, five calls: the silent deletion of the jump from the parent, the
  silent flush of the child, the silent deletion of the child, the creation of the child
  and the append of the jump from the parent, the last two with the ordinary variant.
  This holds in every environment, so no status of the first three, or of any call, ends
  the sequence.
\<close>

theorem safe_installer_five_per_child:
  assumes "children \<noteq> []"
  shows "\<exists>r'. createChildChains e target table parent (map Some children @ [None]) r = Inr r'
           \<and> trace r' = trace r @
               concat (map (\<lambda>child.
                 [ExecIptablesSilently target [''-t'', table, ''-D'', parent, ''-j'', child],
                  ExecIptablesSilently target [''-t'', table, ''-F'', child],
                  ExecIptablesSilently target [''-t'', table, ''-X'', child],
                  ExecIptables target [''-t'', table, ''-N'', child],
                  ExecIptables target [''-t'', table, ''-A'', parent, ''-j'', child]]) children)"
  using assms
  by (simp add: createChildChains_fold trace_fold_body safe_calls_def[abs_def])

theorem safe_installer_five_per_child_witness:
  "[''oem_out'', ''fw_OUTPUT''] \<noteq> []
   \<and> (\<exists>r'. createChildChains failing_env V4V6 ''filter'' ''OUTPUT''
              [Some ''oem_out'', Some ''fw_OUTPUT'', None] start = Inr r'
         \<and> trace r' =
             [ExecIptablesSilently V4V6 [''-t'', ''filter'', ''-D'', ''OUTPUT'', ''-j'', ''oem_out''],
              ExecIptablesSilently V4V6 [''-t'', ''filter'', ''-F'', ''oem_out''],
              ExecIptablesSilently V4V6 [''-t'', ''filter'', ''-X'', ''oem_out''],
              ExecIptables V4V6 [''-t'', ''filter'', ''-N'', ''oem_out''],
              ExecIptables V4V6 [''-t'', ''filter'', ''-A'', ''OUTPUT'', ''-j'', ''oem_out''],
              ExecIptablesSilently V4V6 [''-t'', ''filter'', ''-D'', ''OUTPUT'', ''-j'', ''fw_OUTPUT''],
              ExecIptablesSilently V4V6 [''-t'', ''filter'', ''-F'', ''fw_OUTPUT''],
              ExecIptablesSilently V4V6 [''-t'', ''filter'', ''-X'', ''fw_OUTPUT''],
              ExecIptables V4V6 [''-t'', ''filter'', ''-N'', ''fw_OUTPUT''],
              ExecIptables V4V6 [''-t'', ''filter'', ''-A'', ''OUTPUT'', ''-j'', ''fw_OUTPUT'']])"
  using safe_installer_five_per_child[of "[''oem_out'', ''fw_OUTPUT'']" failing_env V4V6
      "''filter''" "''OUTPUT''" start]
  by (simp add: start_def)

text \<open>
  C5. Spec-modelled rule state. The first installer call of \<open>initIptablesRules\<close>, the fast
  installation of the bandwidth and firewall input chains under filter INPUT for both
  families: when the two names can stand in a script and are not names of hook chains, and
  filter INPUT exists in both families, the call succeeds, and afterwards filter INPUT of
  either family holds exactly the jump to the bandwidth chain followed by the jump to the
  firewall chain, and both child chains exist and are empty.
\<close>

theorem filter_input_scenario:
  assumes "wf_name (BandwidthController_LOCAL_INPUT n)" "\<not> is_builtin (BandwidthController_LOCAL_INPUT n)"
    and "wf_name (FirewallController_LOCAL_INPUT n)" "\<not> is_builtin (FirewallController_LOCAL_INPUT n)"
    and "rules_of nf IPv4 ''filter'' ''INPUT'' \<noteq> None" "rules_of nf IPv6 ''filter'' ''INPUT'' \<noteq> None"
  shows "\<exists>r'. createChildChainsFast netfilter_env V4V6 ''filter'' ''INPUT'' (FILTER_INPUT n)
                \<lparr>world = nf, trace = tr\<rparr> = Inr r'
           \<and> (\<forall>fam.
                 rules_of (world r') fam ''filter'' ''INPUT'' =
                   Some [Jump (BandwidthController_LOCAL_INPUT n), Jump (FirewallController_LOCAL_INPUT n)]
                 \<and> rules_of (world r') fam ''filter'' (BandwidthController_LOCAL_INPUT n) = Some []
                 \<and> rules_of (world r') fam ''filter'' (FirewallController_LOCAL_INPUT n) = Some [])"
proof -
  let ?cs = "[BandwidthController_LOCAL_INPUT n, FirewallController_LOCAL_INPUT n]"
  have wt: "wf_name ''filter''" and wp: "wf_name ''INPUT''"
    by (simp_all add: wf_name_def)
  have np: "''INPUT'' \<notin> set ?cs"
    using assms(2,4) by (auto simp: is_builtin_def)
  have pres: "\<forall>fam\<in>set (families V4V6). rules_of (world \<lparr>world = nf, trace = tr\<rparr>) fam ''filter'' ''INPUT'' \<noteq> None"
    using assms(5,6) by simp
  have wfc: "\<forall>c\<in>set ?cs. wf_name c \<and> \<not> is_builtin c" using assms(1-4) by simp
  obtain r' where r': "createChildChainsFast netfilter_env V4V6 ''filter'' ''INPUT''
        (map Some ?cs @ [None]) \<lparr>world = nf, trace = tr\<rparr> = Inr r'"
    "rules_of (world r') = entry_update (\<lambda>_. map Jump ?cs) V4V6 ''filter'' ''INPUT'' ?cs
        (rules_of (world \<lparr>world = nf, trace = tr\<rparr>))"
    using fast_semantics[of ?cs "''filter''" "''INPUT''" V4V6 "\<lparr>world = nf, trace = tr\<rparr>",
        OF _ wt wp wfc np pres]
    by auto
  have all: "fam \<in> set (families V4V6)" for fam by (cases fam) simp_all
  have "rules_of (world r') fam ''filter'' ''INPUT'' = Some (map Jump ?cs)
      \<and> rules_of (world r') fam ''filter'' (BandwidthController_LOCAL_INPUT n) = Some []
      \<and> rules_of (world r') fam ''filter'' (FirewallController_LOCAL_INPUT n) = Some []" for fam
    using np all[of fam] assms(5,6)
    by (cases fam) (auto simp: r'(2) entry_update_def)
  then show ?thesis
    using r'(1) by (simp add: FILTER_INPUT_def)
qed

theorem filter_input_scenario_witness:
  "wf_name (BandwidthController_LOCAL_INPUT sample_names)
   \<and> \<not> is_builtin (BandwidthController_LOCAL_INPUT sample_names)
   \<and> wf_name (FirewallController_LOCAL_INPUT sample_names)
   \<and> \<not> is_builtin (FirewallController_LOCAL_INPUT sample_names)
   \<and> rules_of boot_state IPv4 ''filter'' ''INPUT'' \<noteq> None
   \<and> rules_of boot_state IPv6 ''filter'' ''INPUT'' \<noteq> None
   \<and> (\<exists>r'. createChildChainsFast netfilter_env V4V6 ''filter'' ''INPUT'' (FILTER_INPUT sample_names)
                \<lparr>world = boot_state, trace = []\<rparr> = Inr r'
           \<and> (\<forall>fam.
                 rules_of (world r') fam ''filter'' ''INPUT'' = Some [Jump ''bw_INPUT'', Jump ''fw_INPUT'']
                 \<and> rules_of (world r') fam ''filter'' ''bw_INPUT'' = Some []
                 \<and> rules_of (world r') fam ''filter'' ''fw_INPUT'' = Some []))"
proof -
  have h: "wf_name (BandwidthController_LOCAL_INPUT sample_names)"
    "\<not> is_builtin (BandwidthController_LOCAL_INPUT sample_names)"
    "wf_name (FirewallController_LOCAL_INPUT sample_names)"
    "\<not> is_builtin (FirewallController_LOCAL_INPUT sample_names)"
    "rules_of boot_state IPv4 ''filter'' ''INPUT'' \<noteq> None"
    "rules_of boot_state IPv6 ''filter'' ''INPUT'' \<noteq> None"
    by (simp_all add: sample_names_def wf_name_def is_builtin_def rules_of_def boot_state_def)
  show ?thesis
    using h filter_input_scenario[OF h, of "[]"] by (simp add: sample_names_def)
qed

text \<open>
  C6. The actions of the eight installer calls, in every environment: one rule
  transaction (the fast strategy) for each of filter INPUT, filter FORWARD, raw
  PREROUTING, mangle FORWARD, nat PREROUTING and nat POSTROUTING, and the five per-child
  invocations of the safe strategy for the children of filter OUTPUT and of mangle
  POSTROUTING, and for those two entries only.
\<close>

theorem strategy_per_entry:
  "\<exists>r'. initIptablesRules_chains e n r = Inr r'
     \<and> actions r' = actions r @
         [ExecIptablesRestore V4V6 (fast_script ''filter'' ''INPUT''
            [BandwidthController_LOCAL_INPUT n, FirewallController_LOCAL_INPUT n])] @
         [ExecIptablesRestore V4V6 (fast_script ''filter'' ''FORWARD''
            [OEM_IPTABLES_FILTER_FORWARD n, FirewallController_LOCAL_FORWARD n,
             BandwidthController_LOCAL_FORWARD n, NatController_LOCAL_FORWARD n])] @
         concat (map (safe_calls V4V6 ''filter'' ''OUTPUT'')
            [OEM_IPTABLES_FILTER_OUTPUT n, FirewallController_LOCAL_OUTPUT n,
             StrictController_LOCAL_OUTPUT n, BandwidthController_LOCAL_OUTPUT n]) @
         [ExecIptablesRestore V4V6 (fast_script ''raw'' ''PREROUTING''
            [BandwidthController_LOCAL_RAW_PREROUTING n, IdletimerController_LOCAL_RAW_PREROUTING n,
             NatController_LOCAL_RAW_PREROUTING n])] @
         concat (map (safe_calls V4V6 ''mangle'' ''POSTROUTING'')
            [OEM_IPTABLES_MANGLE_POSTROUTING n, BandwidthController_LOCAL_MANGLE_POSTROUTING n,
             IdletimerController_LOCAL_MANGLE_POSTROUTING n]) @
         [ExecIptablesRestore V4V6 (fast_script ''mangle'' ''FORWARD''
            [NatController_LOCAL_MANGLE_FORWARD n])] @
         [ExecIptablesRestore V4 (fast_script ''nat'' ''PREROUTING'' [OEM_IPTABLES_NAT_PREROUTING n])] @
         [ExecIptablesRestore V4 (fast_script ''nat'' ''POSTROUTING''
            [NatController_LOCAL_NAT_POSTROUTING n])]"
  using chains_actions[of e n r]
  by (simp add: topology_def entry_calls_def)

text \<open>
  C7, as amended. The claim is that the bandwidth module's hooks are registered before
  those of the firewall and NAT modules. The source registers, after the eight installer
  calls and in every environment, each module's hooks once in the order OEM, firewall,
  NAT, bandwidth, idletimer: the bandwidth hooks come after the firewall and NAT hooks.
\<close>

theorem hook_registration_sequence:
  "\<exists>r1 r2. initIptablesRules_chains e n r = Inr r1 \<and> initIptablesRules e n r = Inr r2
     \<and> actions r2 = actions r1 @
         [SetupOemIptablesHook, FirewallSetupIptablesHooks, NatSetupIptablesHooks,
          BandwidthSetupIptablesHooks, IdletimerSetupIptablesHooks]"
  using chains_actions[of e n r]
  by (auto simp: initIptablesRules_def andThen_def hooks_actions hook_calls_def)

text \<open>
  C7, the claim as stated fails: in a run where every call succeeds the firewall, NAT and
  bandwidth hooks are registered in this order, and neither the firewall nor the NAT
  registration comes after the bandwidth registration.
\<close>

theorem bandwidth_hooks_after_firewall_and_nat:
  "performed [FirewallSetupIptablesHooks, NatSetupIptablesHooks, BandwidthSetupIptablesHooks]
     (initIptablesRules quiet_env sample_names start)
   \<and> \<not> performed [BandwidthSetupIptablesHooks, FirewallSetupIptablesHooks]
     (initIptablesRules quiet_env sample_names start)
   \<and> \<not> performed [BandwidthSetupIptablesHooks, NatSetupIptablesHooks]
     (initIptablesRules quiet_env sample_names start)"
proof -
  obtain r' where r': "initIptablesRules quiet_env sample_names start = Inr r'"
    "actions r' = actions start @ concat (map entry_calls (topology sample_names)) @ hook_calls"
    using initIptablesRules_actions[of quiet_env sample_names start] by blast
  show ?thesis
    unfolding performed_def r' sum.case
    by (simp add: actions_start topology_def sample_names_def entry_calls_def safe_calls_def
          hook_calls_def)
qed

lemma world_logTime_env: "world (logTime e fmt r) = world_after_log e fmt (world r)"
  by (simp add: logTime_def world_after_log_def world_invoke split_beta)

text \<open>The negation of the smallest status is that status again, as on the machine.\<close>

lemma negated_status_wraps: "sint (- (- 2147483648 :: c_int)) = - 2147483648"
  by simp

text \<open>
  C8. When the call of \<open>RouteController::Init\<close> that \<open>init\<close> makes returns a non-zero
  status, \<open>init\<close> still returns normally. The world it leaves is the world that
  \<open>initIptablesRules\<close> left (topology and hooks), changed by the disabling of bandwidth
  control and its log line, by the routing call, by the error log with the negated status
  and by the last log line, in this order and by nothing else: no earlier effect is undone.
  After the routing call it logs the error, then the time, and makes no other call; its
  actions are those of the eight installations, the hook registrations, the disabling of
  bandwidth control and the routing initialisation, none of them skipped.
\<close>

theorem route_init_failure_not_fatal:
  assumes "fst (routing_init_result e n r0) \<noteq> 0"
  shows "\<exists>r1 r' t. initIptablesRules e n r0 = Inr r1 \<and> init e n r0 = Inr r'
           \<and> world r' =
               world_after_log e ''Initializing RouteController: %.1fms''
                 (world_after e (ALOGE ''failed to initialize RouteController (%s)''
                                   (- fst (routing_init_result e n r0)))
                   (world_after e (RouteControllerInit (NetworkController_LOCAL_NET_ID n))
                     (world_after_log e ''Disabling bandwidth control: %.1fms''
                       (world_after e (EnableBandwidthControl False) (world r1)))))
           \<and> trace r' = trace (snd (routing_init_result e n r0)) @
               [ALOGE ''failed to initialize RouteController (%s)'' (- fst (routing_init_result e n r0)),
                ALOGI ''Initializing RouteController: %.1fms'' t]
           \<and> actions r' = actions r0 @ concat (map entry_calls (topology n)) @ hook_calls @
               [EnableBandwidthControl False, RouteControllerInit (NetworkController_LOCAL_NET_ID n)]"
proof -
  obtain r1 where r1: "initIptablesRules e n r0 = Inr r1"
    "actions r1 = actions r0 @ concat (map entry_calls (topology n)) @ hook_calls"
    using initIptablesRules_actions[of e n r0] by blast
  show ?thesis
    using assms
    by (simp add: init_def routing_init_result_def r1 andThen_def Let_def split_beta
          trace_logTime trace_invoke actions_invoke actions_logTime
          world_logTime_env world_invoke world_after_def)
qed

theorem route_init_failure_not_fatal_witness:
  "fst (routing_init_result journal_env sample_names journal_start) \<noteq> 0
   \<and> (\<exists>r1 r' t. initIptablesRules journal_env sample_names journal_start = Inr r1
           \<and> init journal_env sample_names journal_start = Inr r'
           \<and> world r' = world r1 @
               [EnableBandwidthControl False,
                ALOGI ''Disabling bandwidth control: %.1fms'' (),
                RouteControllerInit 99,
                ALOGE ''failed to initialize RouteController (%s)'' (- 1),
                ALOGI ''Initializing RouteController: %.1fms'' ()]
           \<and> trace r' = trace (snd (routing_init_result journal_env sample_names journal_start)) @
               [ALOGE ''failed to initialize RouteController (%s)'' (- 1),
                ALOGI ''Initializing RouteController: %.1fms'' t]
           \<and> actions r' = actions journal_start @ concat (map entry_calls (topology sample_names))
               @ hook_calls @ [EnableBandwidthControl False, RouteControllerInit 99])"
proof -
  have f: "fst (routing_init_result journal_env sample_names journal_start) = 1"
    by (simp add: routing_init_result_def invoke_def journal_env_def split_beta)
  then have h: "fst (routing_init_result journal_env sample_names journal_start) \<noteq> 0" by simp
  have w: "world_after journal_env c w = w @ [c]" for c w
    by (simp add: world_after_def journal_env_def)
  have wl: "world_after_log journal_env fmt w = w @ [ALOGI fmt ()]" for fmt w
    by (simp add: world_after_log_def journal_env_def)
  show ?thesis
    using route_init_failure_not_fatal[OF h] f by (simp add: sample_names_def w wl)
qed

text \<open>
  C9. In every environment, whatever the stopwatch reads and whatever the calls return,
  \<open>init\<close> returns normally and its actions are, in this order: the invocations of the
  eight topology entries, the five hook registrations, the disabling of bandwidth control,
  and the routing initialisation for the local network identifier.
\<close>

theorem init_phase_order:
  "\<exists>r'. init e n r = Inr r'
     \<and> actions r' = actions r @ concat (map entry_calls (topology n)) @ hook_calls
          @ [EnableBandwidthControl False, RouteControllerInit (NetworkController_LOCAL_NET_ID n)]"
  by (rule init_actions)

text \<open>
  C10. Both installers run their loop body on the first array element before any test:
  on the array that holds only the NULL terminator the safe installer reads past the end
  of the array and the fast installer formats the NULL. Each of the eight arrays of the
  file has a child before its terminator and ends with NULL, and the eight installer calls
  of \<open>initIptablesRules\<close> all return without such a fault.
\<close>

theorem topology_arrays_nonempty:
  "createChildChains e target table parent [None] r = Inl OutOfBounds
   \<and> createChildChainsFast e target table parent [None] r = Inl NullString
   \<and> list_all (\<lambda>a. a \<noteq> [] \<and> hd a \<noteq> None \<and> last a = None)
       [FILTER_INPUT n, FILTER_FORWARD n, FILTER_OUTPUT n, RAW_PREROUTING n,
        MANGLE_POSTROUTING n, MANGLE_FORWARD n, NAT_PREROUTING n, NAT_POSTROUTING n]
   \<and> (\<exists>r'. initIptablesRules_chains e n r = Inr r')"
proof -
  have "createChildChains e target table parent [None] r = Inl OutOfBounds"
    by (simp add: createChildChains_def)
  moreover have "createChildChainsFast e target table parent [None] r = Inl NullString"
    by (simp add: createChildChainsFast_def andThen_def)
  moreover have "list_all (\<lambda>a. a \<noteq> [] \<and> hd a \<noteq> None \<and> last a = None)
       [FILTER_INPUT n, FILTER_FORWARD n, FILTER_OUTPUT n, RAW_PREROUTING n,
        MANGLE_POSTROUTING n, MANGLE_FORWARD n, NAT_PREROUTING n, NAT_POSTROUTING n]"
    by (simp add: FILTER_INPUT_def FILTER_FORWARD_def FILTER_OUTPUT_def RAW_PREROUTING_def
        MANGLE_POSTROUTING_def MANGLE_FORWARD_def NAT_PREROUTING_def NAT_POSTROUTING_def)
  moreover have "\<exists>r'. initIptablesRules_chains e n r = Inr r'"
    using chains_actions[of e n r] by blast
  ultimately show ?thesis by blast
qed

end
